theory Spec2Isabelle
  imports Complex_Main "HOL-Library.Word"
begin

section \<open>video2ascii: the frame-to-ASCII conversion pipeline of main.cpp\<close>

text \<open>
  The development follows \<^verbatim>\<open>src/main.cpp\<close> function by function.

  Numbers. A \<^verbatim>\<open>double\<close> or \<^verbatim>\<open>float\<close> value is the rational number it stands for
  (\<^typ>\<open>rat\<close>), and every floating-point operation of the source is the exact operation
  followed by the rounding of IEEE 754 to the nearest number of the format, ties to
  even: \<open>fl64\<close> for \<^verbatim>\<open>double\<close> (53 bits), \<open>fl32\<close> for \<^verbatim>\<open>float\<close> (24 bits), subnormal
  numbers included. A \<^verbatim>\<open>float\<close> expression is evaluated in \<^verbatim>\<open>float\<close>, as on x86-64.
  Infinities and NaN are no values of the model; the one operation of the source that
  yields them on the inputs considered, the division by \<^verbatim>\<open>total_frames == 0\<close>, is a
  fault. \<^verbatim>\<open>static_cast<int>\<close> truncates towards zero. The \<^verbatim>\<open>int\<close> and \<^verbatim>\<open>size_t\<close>
  counters are unbounded (\<^typ>\<open>nat\<close>, \<^typ>\<open>int\<close>): no claim below depends on wrap-around.
  A pixel channel is an \<^verbatim>\<open>uchar\<close>, an 8-bit word.

  Undefined behaviour that the source can reach is a value of the model: reading a
  \<^verbatim>\<open>std::string\<close> or a \<^verbatim>\<open>std::vector\<close> out of range is \<open>Inl IndexOutOfRange\<close>, a
  division by zero is \<open>Inl DivideByZero\<close>.

  Threads. The workers started by \<^verbatim>\<open>std::async\<close> are interleaved by a schedule, a list
  of worker numbers that is an argument of the model. A step of a worker is one access
  to the shared state: the store of a converted frame, the increment of the counter,
  the read of the counter, the read of \<^verbatim>\<open>last_progress\<close> for the test, the assignment
  to \<^verbatim>\<open>last_progress\<close>, and the block that writes a bar while it holds the mutex.
\<close>

subsection \<open>Faults\<close>

datatype fault = IndexOutOfRange | DivideByZero

subsection \<open>Library functions used by the source\<close>

text \<open>\<^verbatim>\<open>static_cast<int>(x)\<close> on a floating value: the fractional part is discarded.\<close>

definition static_cast_int :: "rat \<Rightarrow> int" where
  "static_cast_int x = (if 0 \<le> x then \<lfloor>x\<rfloor> else \<lceil>x\<rceil>)"

text \<open>
  Floating-point rounding. \<open>bit_length k\<close> is the number of binary digits of a
  positive integer. \<open>ilog2 x\<close> is the binary exponent of a positive \<open>x\<close>: the integer
  \<open>e\<close> with \<open>2 ^ e \<le> x < 2 ^ (e + 1)\<close>. \<open>round_even\<close> rounds to the nearest
  integer, a tie to the even one. A format with \<open>p\<close> bits of precision whose smallest
  positive number is \<open>2 ^ emin\<close> holds the multiples of \<open>2 ^ q\<close> around \<open>x\<close>, with
  \<open>q = max (ilog2 \<bar>x\<bar> - p + 1) emin\<close>; \<open>round_float\<close> takes the nearest of them.
\<close>

function bit_length :: "int \<Rightarrow> int" where
  "bit_length k = (if k \<le> 0 then 0 else bit_length (k div 2) + 1)"
  by pat_completeness auto
termination
  by (relation "measure nat") auto

declare bit_length.simps [simp del]

definition ilog2 :: "rat \<Rightarrow> int" where
  "ilog2 x =
     (if 1 \<le> x then bit_length \<lfloor>x\<rfloor> - 1
      else - bit_length (\<lceil>1 / x\<rceil> - 1))"

definition round_even :: "rat \<Rightarrow> int" where
  "round_even z =
     (let f = \<lfloor>z\<rfloor>; r = z - of_int f
      in if r < 1 / 2 then f else if 1 / 2 < r then f + 1 else if even f then f else f + 1)"

definition round_float :: "nat \<Rightarrow> int \<Rightarrow> rat \<Rightarrow> rat" where
  "round_float p emin x =
     (if x = 0 then 0
      else
        let q = max (ilog2 \<bar>x\<bar> - int p + 1) emin
        in of_int (round_even (x / 2 powi q)) * 2 powi q)"

text \<open>\<^verbatim>\<open>double\<close> is binary64, \<^verbatim>\<open>float\<close> is binary32.\<close>

definition fl64 :: "rat \<Rightarrow> rat" where
  "fl64 = round_float 53 (- 1074)"

definition fl32 :: "rat \<Rightarrow> rat" where
  "fl32 = round_float 24 (- 149)"

text \<open>
  \<^verbatim>\<open>s[i]\<close> on a \<^verbatim>\<open>const std::string\<close> with an \<^verbatim>\<open>int\<close> index (converted to \<^verbatim>\<open>size_t\<close>, so
  a negative index is far out of range): position \<open>size()\<close> yields the terminating
  NUL character, anything beyond is undefined.
\<close>

definition string_at :: "string \<Rightarrow> int \<Rightarrow> fault + char" where
  "string_at s i =
     (if 0 \<le> i \<and> i < int (length s) then Inr (s ! nat i)
      else if i = int (length s) then Inr (CHR 0x00)
      else Inl IndexOutOfRange)"

text \<open>\<^verbatim>\<open>std::to_string(int)\<close>: the decimal digits, most significant first, a minus sign
  before a negative value.\<close>

definition digit_char :: "nat \<Rightarrow> char" where
  "digit_char d = ''0123456789'' ! d"

fun digits10 :: "nat \<Rightarrow> string" where
  "digits10 n = (if n < 10 then [digit_char n] else digits10 (n div 10) @ [digit_char (n mod 10)])"

declare digits10.simps [simp del]

definition to_string :: "int \<Rightarrow> string" where
  "to_string i = (if i < 0 then CHR ''-'' # digits10 (nat (- i)) else digits10 (nat i))"

subsection \<open>Glyph mapper: \<^verbatim>\<open>pixel_to_ascii\<close>\<close>

definition ASCII_CHARS :: string where
  "ASCII_CHARS = ''.-:=+*%#@$''"

text \<open>The index expression of \<^verbatim>\<open>pixel_to_ascii\<close>:
  \<^verbatim>\<open>static_cast<int>(pixel * ASCII_CHARS.size() / 256)\<close>, a product and a quotient of
  \<^verbatim>\<open>double\<close> values (the size and 256 convert exactly).\<close>

definition pixel_index :: "rat \<Rightarrow> int" where
  "pixel_index pixel =
     static_cast_int (fl64 (fl64 (pixel * of_nat (length ASCII_CHARS)) / 256))"

definition pixel_to_ascii :: "rat \<Rightarrow> fault + char" where
  "pixel_to_ascii pixel = string_at ASCII_CHARS (pixel_index pixel)"

subsection \<open>Color encoder: \<^verbatim>\<open>apply_color_to_ascii\<close>\<close>

text \<open>\<^verbatim>\<open>cv::Vec3b\<close>: three \<^verbatim>\<open>uchar\<close> channels, read by index 0, 1, 2.\<close>

datatype Vec3b = Vec3b (c0: "8 word") (c1: "8 word") (c2: "8 word")

definition ESC :: char where
  "ESC = CHR 0x1B"

definition apply_color_to_ascii :: "Vec3b \<Rightarrow> fault + string" where
  "apply_color_to_ascii pixel =
     (let r = uint (c2 pixel); g = uint (c1 pixel); b = uint (c0 pixel) in
      case pixel_to_ascii (fl64 (of_int (r + g + b) / 3)) of
        Inl e \<Rightarrow> Inl e
      | Inr ch \<Rightarrow>
          Inr ([ESC] @ ''[38;2;'' @ to_string r @ '';'' @ to_string g @ '';'' @ to_string b
               @ ''m'' @ [ch]))"

subsection \<open>Frame converter: \<^verbatim>\<open>convert_frame_to_ascii\<close>\<close>

text \<open>
  \<^verbatim>\<open>cv::Mat\<close> as the converter uses it: the fields \<^verbatim>\<open>rows\<close> and \<^verbatim>\<open>cols\<close> and the
  pixel lookup \<^verbatim>\<open>at<cv::Vec3b>(i, j)\<close>. The loops below query the lookup only at
  \<open>i < rows\<close> and \<open>j < cols\<close>.
\<close>

record Mat =
  rows :: nat
  cols :: nat
  at_Vec3b :: "nat \<Rightarrow> nat \<Rightarrow> Vec3b"

definition newline :: char where
  "newline = CHR 0x0A"

text \<open>The inner loop over the columns \<open>j\<close> of row \<open>i\<close>; \<open>acc\<close> is the content of the
  string stream so far.\<close>

function cols_loop :: "Mat \<Rightarrow> nat \<Rightarrow> nat \<Rightarrow> string \<Rightarrow> fault + string" where
  "cols_loop frame i j acc =
     (if j < cols frame then
        (case apply_color_to_ascii (at_Vec3b frame i j) of
           Inl e \<Rightarrow> Inl e
         | Inr s \<Rightarrow> cols_loop frame i (j + 1) (acc @ s))
      else Inr acc)"
  by pat_completeness auto
termination
  by (relation "measure (\<lambda>(frame, i, j, acc). cols frame - j)") auto

declare cols_loop.simps [simp del]

text \<open>The outer loop over the rows \<open>i\<close>.\<close>

function rows_loop :: "Mat \<Rightarrow> nat \<Rightarrow> string \<Rightarrow> fault + string" where
  "rows_loop frame i acc =
     (if i < rows frame then
        (case cols_loop frame i 0 acc of
           Inl e \<Rightarrow> Inl e
         | Inr acc' \<Rightarrow> rows_loop frame (i + 1) (acc' @ [newline]))
      else Inr acc)"
  by pat_completeness auto
termination
  by (relation "measure (\<lambda>(frame, i, acc). rows frame - i)") auto

declare rows_loop.simps [simp del]

definition convert_frame_to_ascii :: "Mat \<Rightarrow> fault + string" where
  "convert_frame_to_ascii frame = rows_loop frame 0 []"

subsection \<open>Progress tracker: \<^verbatim>\<open>display_progress\<close>\<close>

text \<open>
  The state shared by the workers: the output vector \<^verbatim>\<open>ascii_frames\<close>, the atomic
  counter \<^verbatim>\<open>completed_frames\<close>, the static local \<^verbatim>\<open>last_progress\<close> of
  \<^verbatim>\<open>display_progress\<close> and the characters written to \<^verbatim>\<open>std::cout\<close>. The field
  \<open>shown\<close> is not in the source: it logs the progress values for which a bar was
  written, in the order of writing.

  The function \<open>display_progress\<close> below is a call that runs without another thread in
  between, and so are \<open>process_frame\<close> and \<open>process_frames\<close>. The source tests and sets
  \<^verbatim>\<open>last_progress\<close> before it takes the mutex, so calls of different workers can
  overlap there; the dispatcher further down runs the workers access by access.
\<close>

record shared =
  ascii_frames :: "string list"
  completed_frames :: nat
  last_progress :: rat
  cout :: string
  shown :: "rat list"

definition bar_width :: nat where
  "bar_width = 50"

text \<open>The characters one call writes once it has passed the threshold test.\<close>

definition render_bar :: "rat \<Rightarrow> string" where
  "render_bar progress =
     (let pos = static_cast_int (fl32 (of_nat bar_width * progress)) in
      ''['' @ concat (map (\<lambda>i. if int i < pos then ''='' else if int i = pos then ''>'' else '' '')
                       [0..<bar_width])
      @ ''] '' @ to_string (static_cast_int (fl32 (progress * 100))) @ '' %'' @ [CHR 0x0D])"

text \<open>The test is \<^verbatim>\<open>progress - last_progress < 0.05f\<close>: a \<^verbatim>\<open>float\<close> difference against
  the \<^verbatim>\<open>float\<close> nearest to 0.05.\<close>

definition display_progress :: "rat \<Rightarrow> shared \<Rightarrow> shared" where
  "display_progress progress st =
     (if fl32 (progress - last_progress st) < fl32 (5 / 100) then st
      else st\<lparr>last_progress := progress,
              cout := cout st @ render_bar progress,
              shown := shown st @ [progress]\<rparr>)"

subsection \<open>Worker: \<^verbatim>\<open>process_frames\<close>\<close>

text \<open>\<^verbatim>\<open>static_cast<float>(completed_frames) / total_frames\<close>, for a divisor other than
  zero: both integers are converted to \<^verbatim>\<open>float\<close>, then divided.\<close>

definition progress_fraction :: "nat \<Rightarrow> int \<Rightarrow> rat" where
  "progress_fraction completed total_frames =
     fl32 (fl32 (of_nat completed) / fl32 (of_int total_frames))"

text \<open>
  One iteration of the loop of \<^verbatim>\<open>process_frames\<close>, at index \<open>i\<close>. With
  \<^verbatim>\<open>total_frames == 0\<close> the quotient passed to \<^verbatim>\<open>display_progress\<close> is no number
  (the source gets an infinity, whose conversion to \<^verbatim>\<open>int\<close> is undefined): a fault.
\<close>

definition process_frame :: "nat \<Rightarrow> Mat list \<Rightarrow> int \<Rightarrow> shared \<Rightarrow> fault + shared" where
  "process_frame i frames total_frames st =
     (if \<not> (i < length frames \<and> i < length (ascii_frames st)) then Inl IndexOutOfRange
      else
        case convert_frame_to_ascii (frames ! i) of
          Inl e \<Rightarrow> Inl e
        | Inr s \<Rightarrow>
            let st1 = st\<lparr>ascii_frames := (ascii_frames st)[i := s]\<rparr>;
                st2 = st1\<lparr>completed_frames := completed_frames st1 + 1\<rparr>
            in if total_frames = 0 then Inl DivideByZero
               else Inr (display_progress
                           (progress_fraction (completed_frames st2) total_frames) st2))"

function process_frames :: "nat \<Rightarrow> nat \<Rightarrow> Mat list \<Rightarrow> int \<Rightarrow> shared \<Rightarrow> fault + shared" where
  "process_frames start end_idx frames total_frames st =
     (if start < end_idx then
        (case process_frame start frames total_frames st of
           Inl e \<Rightarrow> Inl e
         | Inr st' \<Rightarrow> process_frames (start + 1) end_idx frames total_frames st')
      else Inr st)"
  by pat_completeness auto
termination
  by (relation "measure (\<lambda>(start, end_idx, frames, total_frames, st). end_idx - start)") auto

declare process_frames.simps [simp del]

subsection \<open>Parallel dispatcher: the preload branch of \<^verbatim>\<open>main\<close>\<close>

text \<open>
  The range \<open>(start, end)\<close> that the spawning loop computes for worker \<open>i\<close>.
\<close>

definition chunk :: "nat \<Rightarrow> nat \<Rightarrow> nat \<Rightarrow> nat \<Rightarrow> nat \<times> nat" where
  "chunk num_threads frames_per_thread n i =
     (i * frames_per_thread,
      if i = num_threads - 1 then n else (i + 1) * frames_per_thread)"

text \<open>
  The vector \<^verbatim>\<open>futures\<close> after the spawning loop, for \<open>n\<close> frames: one range per
  worker started. \<^verbatim>\<open>frames.size() / num_threads\<close> comes first and divides by zero
  when \<^verbatim>\<open>hardware_concurrency()\<close> has returned 0.
\<close>

definition futures :: "nat \<Rightarrow> nat \<Rightarrow> fault + (nat \<times> nat) list" where
  "futures num_threads n =
     (if num_threads = 0 then Inl DivideByZero
      else
        let frames_per_thread = n div num_threads
        in Inr (map (chunk num_threads frames_per_thread n) [0..<num_threads]))"

text \<open>
  The places of a worker within the loop body of \<^verbatim>\<open>process_frames\<close>: before the
  conversion of the frame and the store of the result; before \<^verbatim>\<open>++completed_frames\<close>;
  before the read of \<^verbatim>\<open>completed_frames\<close> for the argument of \<^verbatim>\<open>display_progress\<close>;
  and, inside \<^verbatim>\<open>display_progress\<close> with the argument \<open>p\<close>, before the test, before the
  assignment to \<^verbatim>\<open>last_progress\<close>, and before the block that takes the mutex and
  writes the bar.
\<close>

datatype place = AtConvert | AtCount | AtLoad | AtTest rat | AtAssign rat | AtPrint rat

text \<open>A running worker is its loop variable, its end index and its place.\<close>

type_synonym worker = "nat \<times> nat \<times> place"

definition start_worker :: "nat \<times> nat \<Rightarrow> worker" where
  "start_worker r = (fst r, snd r, AtConvert)"

text \<open>
  One step of a worker whose loop has not ended. The conversion reads the frame, which
  no thread writes, and stores into the slot of the worker's own index. The unprotected
  accesses to \<^verbatim>\<open>last_progress\<close> are taken as one read and one write of the whole
  \<^verbatim>\<open>float\<close>. The bar is written under the mutex, so it is written in one piece.
\<close>

fun worker_step :: "Mat list \<Rightarrow> int \<Rightarrow> worker \<Rightarrow> shared \<Rightarrow> fault + worker \<times> shared" where
  "worker_step frames total_frames (i, end_idx, AtConvert) st =
     (if \<not> (i < length frames \<and> i < length (ascii_frames st)) then Inl IndexOutOfRange
      else
        case convert_frame_to_ascii (frames ! i) of
          Inl e \<Rightarrow> Inl e
        | Inr s \<Rightarrow> Inr ((i, end_idx, AtCount), st\<lparr>ascii_frames := (ascii_frames st)[i := s]\<rparr>))"
| "worker_step frames total_frames (i, end_idx, AtCount) st =
     Inr ((i, end_idx, AtLoad), st\<lparr>completed_frames := completed_frames st + 1\<rparr>)"
| "worker_step frames total_frames (i, end_idx, AtLoad) st =
     (if total_frames = 0 then Inl DivideByZero
      else Inr ((i, end_idx, AtTest (progress_fraction (completed_frames st) total_frames)), st))"
| "worker_step frames total_frames (i, end_idx, AtTest p) st =
     (if fl32 (p - last_progress st) < fl32 (5 / 100) then Inr ((i + 1, end_idx, AtConvert), st)
      else Inr ((i, end_idx, AtAssign p), st))"
| "worker_step frames total_frames (i, end_idx, AtAssign p) st =
     Inr ((i, end_idx, AtPrint p), st\<lparr>last_progress := p\<rparr>)"
| "worker_step frames total_frames (i, end_idx, AtPrint p) st =
     Inr ((i + 1, end_idx, AtConvert),
          st\<lparr>cout := cout st @ render_bar p, shown := shown st @ [p]\<rparr>)"

text \<open>Worker \<open>k\<close> takes a step when the schedule names it and its loop has not ended.\<close>

fun pool_step ::
  "Mat list \<Rightarrow> int \<Rightarrow> nat \<Rightarrow> worker list \<times> shared \<Rightarrow> fault + worker list \<times> shared" where
  "pool_step frames total_frames k (ws, st) =
     (if k < length ws \<and> fst (ws ! k) < fst (snd (ws ! k)) then
        (case worker_step frames total_frames (ws ! k) st of
           Inl e \<Rightarrow> Inl e
         | Inr (w', st') \<Rightarrow> Inr (ws[k := w'], st'))
      else Inr (ws, st))"

fun run_schedule ::
  "Mat list \<Rightarrow> int \<Rightarrow> nat list \<Rightarrow> worker list \<times> shared \<Rightarrow> fault + worker list \<times> shared" where
  "run_schedule frames total_frames [] cfg = Inr cfg"
| "run_schedule frames total_frames (k # sched) cfg =
     (case pool_step frames total_frames k cfg of
        Inl e \<Rightarrow> Inl e
      | Inr cfg' \<Rightarrow> run_schedule frames total_frames sched cfg')"

text \<open>The number of steps a worker has taken since the head of its loop.\<close>

fun place_rank :: "place \<Rightarrow> nat" where
  "place_rank AtConvert = 0"
| "place_rank AtCount = 1"
| "place_rank AtLoad = 2"
| "place_rank (AtTest p) = 3"
| "place_rank (AtAssign p) = 4"
| "place_rank (AtPrint p) = 5"

text \<open>A worker that runs on its own until its loop ends.\<close>

function run_worker :: "Mat list \<Rightarrow> int \<Rightarrow> worker \<Rightarrow> shared \<Rightarrow> fault + shared" where
  "run_worker frames total_frames w st =
     (if fst w < fst (snd w) then
        (case worker_step frames total_frames w st of
           Inl e \<Rightarrow> Inl e
         | Inr (w', st') \<Rightarrow> run_worker frames total_frames w' st')
      else Inr st)"
  by pat_completeness auto
termination
proof (relation "measure (\<lambda>(frames, total_frames, w, st).
    6 * (fst (snd w) - fst w) - place_rank (snd (snd w)))")
  show "wf (measure (\<lambda>(frames, total_frames, w, st).
    6 * (fst (snd w) - fst w) - place_rank (snd (snd w))))"
    by simp
next
  fix frames :: "Mat list" and total_frames :: int and w :: worker and st :: shared
    and r :: "worker \<times> shared" and w' :: worker and st' :: shared
  assume running: "fst w < fst (snd w)"
    and step: "worker_step frames total_frames w st = Inr r" and r: "(w', st') = r"
  obtain i end_idx pl where w: "w = (i, end_idx, pl)" by (cases w)
  from running w have "i < end_idx" by simp
  with step r [symmetric] w
  have "6 * (fst (snd w') - fst w') - place_rank (snd (snd w')) < 6 * (end_idx - i) - place_rank pl"
    by (cases pl) (auto split: if_splits sum.splits)
  with w show "((frames, total_frames, w', st'), (frames, total_frames, w, st))
      \<in> measure (\<lambda>(frames, total_frames, w, st).
          6 * (fst (snd w) - fst w) - place_rank (snd (snd w)))"
    by simp
qed

declare run_worker.simps [simp del]

text \<open>\<^verbatim>\<open>for (auto &fut: futures) fut.get()\<close>: every worker runs to its end.\<close>

fun join_all :: "Mat list \<Rightarrow> int \<Rightarrow> worker list \<Rightarrow> shared \<Rightarrow> fault + shared" where
  "join_all frames total_frames [] st = Inr st"
| "join_all frames total_frames (w # ws) st =
     (case run_worker frames total_frames w st of
        Inl e \<Rightarrow> Inl e
      | Inr st' \<Rightarrow> join_all frames total_frames ws st')"

definition initial_shared :: "nat \<Rightarrow> shared" where
  "initial_shared n =
     \<lparr>ascii_frames = replicate n [], completed_frames = 0, last_progress = - 1,
      cout = [], shown = []\<rparr>"

text \<open>
  Lines 126 to 137 of \<^verbatim>\<open>main\<close>, which the specification calls \<open>convert_batch\<close>:
  allocate the output vector, start the workers, let them run interleaved as the
  schedule says, wait for all of them. With the empty schedule worker 0 runs to its
  end, then worker 1, and so on.
\<close>

definition convert_batch :: "nat \<Rightarrow> int \<Rightarrow> Mat list \<Rightarrow> nat list \<Rightarrow> fault + shared" where
  "convert_batch num_threads total_frames frames sched =
     (case futures num_threads (length frames) of
        Inl e \<Rightarrow> Inl e
      | Inr ts \<Rightarrow>
          (case run_schedule frames total_frames sched
                  (map start_worker ts, initial_shared (length frames)) of
             Inl e \<Rightarrow> Inl e
           | Inr (ws', st) \<Rightarrow> join_all frames total_frames ws' st))"

subsection \<open>Frames for the concrete scenarios\<close>

text \<open>The frame of \<open>h\<close> rows and \<open>w\<close> columns with every pixel \<open>(0, 0, 0)\<close>.\<close>

definition black_frame :: "nat \<Rightarrow> nat \<Rightarrow> Mat" where
  "black_frame h w = \<lparr>rows = h, cols = w, at_Vec3b = \<lambda>i j. Vec3b 0 0 0\<rparr>"

subsection \<open>Notions of the specification\<close>

text \<open>The value of a string of decimal digits, and what it is to be a decimal numeral
  without sign, padding or leading zero.\<close>

definition digit_val :: "char \<Rightarrow> nat" where
  "digit_val c = of_char c - 48"

definition decimal_value :: "string \<Rightarrow> nat" where
  "decimal_value s = foldl (\<lambda>v c. 10 * v + digit_val c) 0 s"

definition canonical_decimal :: "string \<Rightarrow> bool" where
  "canonical_decimal s \<longleftrightarrow>
     s \<noteq> [] \<and> set s \<subseteq> set ''0123456789'' \<and> (s = ''0'' \<or> hd s \<noteq> CHR ''0'')"

text \<open>The glyph mapper as the specification words it: the index
  \<open>floor (brightness * K / 256)\<close>, clamped to \<open>K - 1\<close>.\<close>

definition glyph_mapper_spec :: "rat \<Rightarrow> char" where
  "glyph_mapper_spec brightness =
     (let K = int (length ASCII_CHARS)
      in ASCII_CHARS ! nat (min (K - 1) \<lfloor>brightness * of_int K / 256\<rfloor>))"

text \<open>The glyph unit of a pixel: what the color encoder returns for it.\<close>

definition glyph_unit :: "Vec3b \<Rightarrow> string" where
  "glyph_unit pixel = (case apply_color_to_ascii pixel of Inl e \<Rightarrow> [] | Inr s \<Rightarrow> s)"

text \<open>The glyph units of row \<open>i\<close> of a frame, left to right.\<close>

definition ascii_row :: "Mat \<Rightarrow> nat \<Rightarrow> string" where
  "ascii_row frame i = concat (map (\<lambda>j. glyph_unit (at_Vec3b frame i j)) [0..<cols frame])"

text \<open>The newline-terminated lines of a text; \<open>cur\<close> is the line being read.\<close>

fun split_lines :: "string \<Rightarrow> string \<Rightarrow> string list" where
  "split_lines cur [] = (if cur = [] then [] else [cur])"
| "split_lines cur (c # cs) =
     (if c = newline then cur # split_lines [] cs else split_lines (cur @ [c]) cs)"

definition lines_of :: "string \<Rightarrow> string list" where
  "lines_of s = split_lines [] s"

subsection \<open>Notions for reports, index ranges and the output vector\<close>

text \<open>The \<^verbatim>\<open>float\<close> just below \<^verbatim>\<open>0.05f\<close>, which is 0.0499999970\<dots>; each report exceeds
  every earlier one by more than this.\<close>

definition min_gap :: rat where
  "min_gap = 13421772 / 2 ^ 28"

definition rising :: "rat list \<Rightarrow> bool" where
  "rising ps = sorted_wrt (\<lambda>p q. min_gap < q - p) ps"


text \<open>The loop body of \<^verbatim>\<open>process_frames\<close> run at the given indices, in their order.\<close>

fun visit :: "nat list \<Rightarrow> Mat list \<Rightarrow> int \<Rightarrow> shared \<Rightarrow> fault + shared" where
  "visit [] frames total_frames st = Inr st"
| "visit (i # is) frames total_frames st =
     (case process_frame i frames total_frames st of
        Inl e \<Rightarrow> Inl e
      | Inr st' \<Rightarrow> visit is frames total_frames st')"

text \<open>The indices whose frames a worker, and the workers of a pool, still have to
  convert.\<close>

fun pend :: "worker \<Rightarrow> nat set" where
  "pend (i, end_idx, pl) = (if pl = AtConvert then {i..<end_idx} else {i + 1..<end_idx})"

definition pending :: "worker list \<Rightarrow> nat set" where
  "pending ws = (\<Union>w \<in> set ws. pend w)"

text \<open>Outside the index set \<open>P\<close>, every slot of the output vector holds the conversion
  of the frame with the same index.\<close>

definition converted :: "Mat list \<Rightarrow> nat set \<Rightarrow> shared \<Rightarrow> bool" where
  "converted frames P st \<longleftrightarrow>
     length (ascii_frames st) = length frames \<and>
     (\<forall>j < length frames. j \<in> P \<or> convert_frame_to_ascii (frames ! j) = Inr (ascii_frames st ! j))"

section \<open>Properties\<close>

subsection \<open>Floating-point rounding\<close>

lemma round_even_of_int: "round_even (of_int n) = n"
  by (simp add: round_even_def)

lemma round_even_range: "\<lfloor>z\<rfloor> \<le> round_even z \<and> round_even z \<le> \<lfloor>z\<rfloor> + 1"
  by (simp add: round_even_def Let_def)

lemma round_even_error: "\<bar>of_int (round_even z) - z\<bar> \<le> 1 / 2"
proof -
  have "of_int \<lfloor>z\<rfloor> \<le> z" and "z < of_int \<lfloor>z\<rfloor> + 1"
    by linarith+
  then show ?thesis
    by (auto simp: round_even_def Let_def abs_le_iff)
qed

lemma round_even_mono:
  assumes "z \<le> z'"
  shows "round_even z \<le> round_even z'"
proof (cases "\<lfloor>z\<rfloor> = \<lfloor>z'\<rfloor>")
  case True
  with assms have "z - of_int \<lfloor>z\<rfloor> \<le> z' - of_int \<lfloor>z'\<rfloor>" by simp
  with True show ?thesis
    by (auto simp: round_even_def Let_def)
next
  case False
  with assms have "\<lfloor>z\<rfloor> + 1 \<le> \<lfloor>z'\<rfloor>"
    using floor_mono [OF assms] by linarith
  with round_even_range [of z] round_even_range [of z'] show ?thesis
    by linarith
qed

lemma bit_length_bounds:
  "0 < k \<Longrightarrow> 1 \<le> bit_length k \<and> 2 ^ nat (bit_length k - 1) \<le> k \<and> k < 2 ^ nat (bit_length k)"
proof (induction k rule: bit_length.induct)
  case (1 k)
  show ?case
  proof (cases "k = 1")
    case True
    have "bit_length 1 = 1"
      by (subst bit_length.simps, subst bit_length.simps) simp
    with True show ?thesis by simp
  next
    case False
    with 1(2) have h: "0 < k div 2" by simp
    define l where "l = bit_length (k div 2)"
    from 1(1) [OF _ h] 1(2)
    have l: "1 \<le> l" and lo: "2 ^ nat (l - 1) \<le> k div 2" and hi: "k div 2 < 2 ^ nat l"
      unfolding l_def by simp_all
    have k: "bit_length k = l + 1"
      using 1(2) unfolding l_def by (subst bit_length.simps) simp
    have "nat l = Suc (nat (l - 1))" using l by simp
    then have "(2::int) ^ nat l = 2 * 2 ^ nat (l - 1)" by simp
    with lo have lo': "2 ^ nat l \<le> k" by linarith
    have "nat (l + 1) = Suc (nat l)" using l by simp
    then have "(2::int) ^ nat (l + 1) = 2 * 2 ^ nat l" by simp
    with hi have hi': "k < 2 ^ nat (l + 1)" by linarith
    from l lo' hi' show ?thesis
      unfolding k by simp
  qed
qed

lemma ilog2_bounds:
  assumes "0 < x"
  shows "2 powi ilog2 x \<le> x \<and> x < 2 powi (ilog2 x + 1)"
proof (cases "1 \<le> x")
  case True
  define n where "n = \<lfloor>x\<rfloor>"
  define l where "l = bit_length n"
  from True have n: "0 < n" and nx: "of_int n \<le> x" and xn: "x < of_int n + 1"
    unfolding n_def by simp_all linarith
  from bit_length_bounds [OF n]
  have l: "1 \<le> l" and lo: "2 ^ nat (l - 1) \<le> n" and hi: "n < 2 ^ nat l"
    unfolding l_def by simp_all
  have e: "ilog2 x = l - 1"
    using True by (simp add: ilog2_def n_def l_def)
  have "(of_int (2 ^ nat (l - 1)) :: rat) \<le> of_int n"
    using lo by (simp only: of_int_le_iff)
  then have "(of_int (2 ^ nat (l - 1)) :: rat) \<le> x"
    using nx by (rule order_trans)
  moreover have "(2::rat) powi (l - 1) = of_int (2 ^ nat (l - 1))"
    using l by (simp add: power_int_def)
  ultimately have 1: "2 powi ilog2 x \<le> x"
    by (simp only: e)
  have "n + 1 \<le> 2 ^ nat l" using hi by simp
  then have "(of_int (n + 1) :: rat) \<le> of_int (2 ^ nat l)"
    by (simp only: of_int_le_iff)
  then have "(of_int n :: rat) + 1 \<le> of_int (2 ^ nat l)"
    by simp
  with xn have "x < of_int (2 ^ nat l)"
    by (rule less_le_trans)
  moreover have "(2::rat) powi (l - 1 + 1) = of_int (2 ^ nat l)"
    using l by (simp add: power_int_def)
  ultimately have 2: "x < 2 powi (ilog2 x + 1)"
    by (simp only: e)
  from 1 2 show ?thesis ..
next
  case False
  define y where "y = 1 / x"
  define k where "k = \<lceil>y\<rceil> - 1"
  define l where "l = bit_length k"
  from False assms have y: "1 < y" by (simp add: y_def)
  then have "2 \<le> \<lceil>y\<rceil>" by linarith
  then have k: "0 < k" and ky: "of_int k < y" and yk: "y \<le> of_int k + 1"
    unfolding k_def by simp_all linarith+
  from bit_length_bounds [OF k]
  have l: "1 \<le> l" and lo: "2 ^ nat (l - 1) \<le> k" and hi: "k < 2 ^ nat l"
    unfolding l_def by simp_all
  have e: "ilog2 x = - l"
    using False by (simp add: ilog2_def k_def y_def l_def)
  have "(of_int (2 ^ nat (l - 1)) :: rat) \<le> of_int k"
    using lo by (simp only: of_int_le_iff)
  then have ylo: "of_int (2 ^ nat (l - 1)) < y"
    using ky by (rule le_less_trans)
  have "k + 1 \<le> 2 ^ nat l" using hi by simp
  then have "(of_int (k + 1) :: rat) \<le> of_int (2 ^ nat l)"
    by (simp only: of_int_le_iff)
  then have "(of_int k :: rat) + 1 \<le> of_int (2 ^ nat l)"
    by simp
  with yk have yhi: "y \<le> of_int (2 ^ nat l)"
    by (rule order_trans)
  have x: "x = 1 / y" using assms by (simp add: y_def)
  have xlo: "1 / of_int (2 ^ nat l) \<le> x"
    unfolding x using yhi y by (intro divide_left_mono) simp_all
  have "(2::rat) powi (- l) = 1 / of_int (2 ^ nat l)"
    using l by (simp add: power_int_def power_one_over inverse_eq_divide)
  with xlo have 1: "2 powi ilog2 x \<le> x"
    by (simp only: e)
  have xhi: "x < 1 / of_int (2 ^ nat (l - 1))"
    unfolding x using ylo y by (intro divide_strict_left_mono) simp_all
  have "(2::rat) powi (- l + 1) = 1 / of_int (2 ^ nat (l - 1))"
  proof (cases "l = 1")
    case True
    then show ?thesis by simp
  next
    case False
    with l have "- l + 1 < 0" and "nat (- (- l + 1)) = nat (l - 1)" by simp_all
    then show ?thesis
      by (simp add: power_int_def power_one_over inverse_eq_divide)
  qed
  with xhi have 2: "x < 2 powi (ilog2 x + 1)"
    by (simp only: e)
  from 1 2 show ?thesis ..
qed

lemma ilog2_less:
  assumes "0 < x" and "x < 2 powi k"
  shows "ilog2 x < k"
proof (rule ccontr)
  assume "\<not> ilog2 x < k"
  then have "k \<le> ilog2 x" by simp
  then have "(2::rat) powi k \<le> 2 powi ilog2 x"
    by (rule power_int_increasing) simp
  also have "\<dots> \<le> x"
    using ilog2_bounds [OF assms(1)] by blast
  finally show False using assms(2) by simp
qed

lemma ilog2_mono:
  assumes "0 < x" and "x \<le> y"
  shows "ilog2 x \<le> ilog2 y"
proof -
  from assms have y: "0 < y" by simp
  have "2 powi ilog2 x \<le> x"
    using ilog2_bounds [OF assms(1)] by blast
  also note assms(2)
  also have "y < 2 powi (ilog2 y + 1)"
    using ilog2_bounds [OF y] by blast
  finally have "(2::rat) powi ilog2 x < 2 powi (ilog2 y + 1)" .
  then have "\<not> ilog2 y + 1 \<le> ilog2 x"
    using power_int_increasing [of "ilog2 y + 1" "ilog2 x" "2::rat"] by auto
  then show ?thesis by simp
qed

lemma pow2_of_int: "0 \<le> k \<Longrightarrow> (2::rat) powi k = of_int (2 ^ nat k)"
  by (simp add: power_int_def)

lemma round_float_pos:
  "0 < x \<Longrightarrow> round_float p emin x =
     of_int (round_even (x / 2 powi max (ilog2 x - int p + 1) emin))
       * 2 powi max (ilog2 x - int p + 1) emin"
  by (simp add: round_float_def Let_def)

lemma round_float_zero: "round_float p emin 0 = 0"
  by (simp add: round_float_def)

lemma round_float_nonneg:
  assumes "0 \<le> x"
  shows "0 \<le> round_float p emin x"
proof (cases "x = 0")
  case True
  then show ?thesis by (simp add: round_float_zero)
next
  case False
  with assms have x: "0 < x" by simp
  let ?q = "max (ilog2 x - int p + 1) emin"
  have "(0::rat) \<le> x / 2 powi ?q" using x by simp
  then have "round_even 0 \<le> round_even (x / 2 powi ?q)"
    by (rule round_even_mono)
  then have "0 \<le> round_even (x / 2 powi ?q)"
    using round_even_of_int [of 0] by simp
  then show ?thesis
    by (simp add: round_float_pos [OF x])
qed

lemma round_float_nonpos:
  assumes "x \<le> 0"
  shows "round_float p emin x \<le> 0"
proof (cases "x = 0")
  case True
  then show ?thesis by (simp add: round_float_zero)
next
  case False
  let ?q = "max (ilog2 \<bar>x\<bar> - int p + 1) emin"
  have "x / 2 powi ?q \<le> (0::rat)"
    using assms by (simp add: divide_nonpos_pos)
  then have "round_even (x / 2 powi ?q) \<le> round_even 0"
    by (rule round_even_mono)
  then have "round_even (x / 2 powi ?q) \<le> 0"
    using round_even_of_int [of 0] by simp
  then have "of_int (round_even (x / 2 powi ?q)) * (2::rat) powi ?q \<le> 0"
    by (intro mult_nonpos_nonneg) simp_all
  with False show ?thesis
    by (simp add: round_float_def Let_def)
qed

text \<open>Rounding is monotone on the positive numbers: across a change of exponent the
  power of two between the arguments separates the results.\<close>

lemma round_float_mono_pos:
  assumes p: "0 < p" and x: "0 < x" and xy: "x \<le> y"
  shows "round_float p emin x \<le> round_float p emin y"
proof -
  from x xy have y: "0 < y" by simp
  define qx where "qx = max (ilog2 x - int p + 1) emin"
  define qy where "qy = max (ilog2 y - int p + 1) emin"
  have fx: "round_float p emin x = of_int (round_even (x / 2 powi qx)) * 2 powi qx"
    unfolding qx_def by (rule round_float_pos [OF x])
  have fy: "round_float p emin y = of_int (round_even (y / 2 powi qy)) * 2 powi qy"
    unfolding qy_def by (rule round_float_pos [OF y])
  have e: "ilog2 x \<le> ilog2 y" using x xy by (rule ilog2_mono)
  then have q: "qx \<le> qy" unfolding qx_def qy_def by simp
  show ?thesis
  proof (cases "qx = qy")
    case True
    have "x / 2 powi qy \<le> y / 2 powi qy"
      using xy by (intro divide_right_mono) simp_all
    then have "round_even (x / 2 powi qy) \<le> round_even (y / 2 powi qy)"
      by (rule round_even_mono)
    then have "(of_int (round_even (x / 2 powi qy)) :: rat) \<le> of_int (round_even (y / 2 powi qy))"
      by simp
    then show ?thesis
      unfolding fx fy True by (intro mult_right_mono) simp_all
  next
    case False
    with q have lt: "qx < qy" by simp
    then have qy: "qy = ilog2 y - int p + 1"
      unfolding qx_def qy_def by linarith
    from lt have ex: "ilog2 x + 1 \<le> ilog2 y"
      unfolding qy qx_def by linarith
    have d: "0 \<le> ilog2 y - qx"
      using lt p unfolding qy by simp
    have "(2::rat) powi ilog2 y = 2 powi (int p - 1) * 2 powi qy"
      unfolding qy by (simp flip: power_int_add)
    then have split_y: "(2::rat) powi ilog2 y = of_int (2 ^ (p - 1)) * 2 powi qy"
      using p by (simp add: pow2_of_int nat_diff_distrib)
    have "2 powi ilog2 y \<le> y"
      using ilog2_bounds [OF y] by blast
    then have "of_int (2 ^ (p - 1)) * 2 powi qy \<le> y"
      by (simp only: split_y)
    then have "of_int (2 ^ (p - 1)) \<le> y / 2 powi qy"
      by (simp add: pos_le_divide_eq)
    then have "round_even (of_int (2 ^ (p - 1))) \<le> round_even (y / 2 powi qy)"
      by (rule round_even_mono)
    then have "(of_int (2 ^ (p - 1)) :: rat) \<le> of_int (round_even (y / 2 powi qy))"
      by (simp only: round_even_of_int of_int_le_iff)
    then have "of_int (2 ^ (p - 1)) * (2::rat) powi qy \<le> of_int (round_even (y / 2 powi qy)) * 2 powi qy"
      by (intro mult_right_mono) simp_all
    then have lower: "2 powi ilog2 y \<le> round_float p emin y"
      by (simp only: split_y fy)
    have "(2::rat) powi ilog2 y = 2 powi (ilog2 y - qx) * 2 powi qx"
      by (simp flip: power_int_add)
    then have split_x: "(2::rat) powi ilog2 y = of_int (2 ^ nat (ilog2 y - qx)) * 2 powi qx"
      using d by (simp only: pow2_of_int)
    have "x < 2 powi (ilog2 x + 1)"
      using ilog2_bounds [OF x] by blast
    also have "\<dots> \<le> 2 powi ilog2 y"
      using ex by (rule power_int_increasing) simp
    finally have "x \<le> of_int (2 ^ nat (ilog2 y - qx)) * 2 powi qx"
      by (simp only: split_x)
    then have "x / 2 powi qx \<le> of_int (2 ^ nat (ilog2 y - qx))"
      by (simp add: pos_divide_le_eq)
    then have "round_even (x / 2 powi qx) \<le> round_even (of_int (2 ^ nat (ilog2 y - qx)))"
      by (rule round_even_mono)
    then have "(of_int (round_even (x / 2 powi qx)) :: rat) \<le> of_int (2 ^ nat (ilog2 y - qx))"
      by (simp only: round_even_of_int of_int_le_iff)
    then have "of_int (round_even (x / 2 powi qx)) * (2::rat) powi qx
        \<le> of_int (2 ^ nat (ilog2 y - qx)) * 2 powi qx"
      by (intro mult_right_mono) simp_all
    then have upper: "round_float p emin x \<le> 2 powi ilog2 y"
      by (simp only: split_x fx)
    from upper lower show ?thesis by (rule order_trans)
  qed
qed

lemma round_float_mono:
  assumes "0 < p" and "x \<le> y" and "0 \<le> y"
  shows "round_float p emin x \<le> round_float p emin y"
proof (cases "0 < x")
  case True
  with assms show ?thesis by (intro round_float_mono_pos)
next
  case False
  then have "round_float p emin x \<le> 0"
    by (intro round_float_nonpos) simp
  also have "0 \<le> round_float p emin y"
    using assms(3) by (rule round_float_nonneg)
  finally show ?thesis .
qed

text \<open>The rounding error is at most half the spacing.\<close>

lemma round_float_error:
  assumes "x \<noteq> 0"
  shows "\<bar>round_float p emin x - x\<bar> \<le> 2 powi max (ilog2 \<bar>x\<bar> - int p + 1) emin / 2"
proof -
  let ?q = "max (ilog2 \<bar>x\<bar> - int p + 1) emin"
  let ?z = "x / 2 powi ?q"
  have "round_float p emin x - x = (of_int (round_even ?z) - ?z) * 2 powi ?q"
    using assms by (simp add: round_float_def Let_def algebra_simps)
  then have "\<bar>round_float p emin x - x\<bar> = \<bar>of_int (round_even ?z) - ?z\<bar> * 2 powi ?q"
    by (simp add: abs_mult)
  also have "\<dots> \<le> 1 / 2 * 2 powi ?q"
    using round_even_error [of ?z] by (intro mult_right_mono) simp_all
  finally show ?thesis by simp
qed

text \<open>An integer below \<open>2 ^ p\<close> is a number of the format.\<close>

lemma round_float_of_int:
  assumes "0 \<le> k" and "k < 2 ^ p" and "emin \<le> 0"
  shows "round_float p emin (of_int k) = of_int k"
proof (cases "k = 0")
  case True
  then show ?thesis by (simp add: round_float_zero)
next
  case False
  with assms(1) have k: "(0::rat) < of_int k" by simp
  define q where "q = max (ilog2 (of_int k) - int p + 1) emin"
  have "(of_int k :: rat) < 2 powi int p"
    using assms(2) by (metis of_int_less_iff of_int_numeral of_int_power power_int_of_nat)
  with k have "ilog2 (of_int k) < int p" by (rule ilog2_less)
  with assms(3) have q: "q \<le> 0" unfolding q_def by simp
  then have "(2::rat) powi q = 1 / of_int (2 ^ nat (- q))"
    by (cases "q = 0") (simp_all add: power_int_def power_one_over inverse_eq_divide)
  then have "of_int k / (2::rat) powi q = of_int (k * 2 ^ nat (- q))"
    by simp
  then have "round_even (of_int k / 2 powi q) = k * 2 ^ nat (- q)"
    by (simp only: round_even_of_int)
  then have "of_int (round_even (of_int k / 2 powi q)) * (2::rat) powi q
      = of_int (k * 2 ^ nat (- q)) * (1 / of_int (2 ^ nat (- q)))"
    using \<open>(2::rat) powi q = 1 / of_int (2 ^ nat (- q))\<close> by simp
  also have "\<dots> = of_int k" by simp
  finally show ?thesis
    unfolding q_def by (simp only: round_float_pos [OF k])
qed

subsection \<open>The two formats\<close>

lemma fl64_mono: "x \<le> y \<Longrightarrow> 0 \<le> y \<Longrightarrow> fl64 x \<le> fl64 y"
  unfolding fl64_def by (rule round_float_mono) simp_all


lemma fl64_nonneg: "0 \<le> x \<Longrightarrow> 0 \<le> fl64 x"
  unfolding fl64_def by (rule round_float_nonneg)

lemma fl64_of_int: "0 \<le> k \<Longrightarrow> k < 2 ^ 53 \<Longrightarrow> fl64 (of_int k) = of_int k"
  unfolding fl64_def by (rule round_float_of_int) simp_all

lemma fl32_of_int: "0 \<le> k \<Longrightarrow> k < 2 ^ 24 \<Longrightarrow> fl32 (of_int k) = of_int k"
  unfolding fl32_def by (rule round_float_of_int) simp_all

lemma fl64_error:
  assumes "0 \<le> x" and "x < 4096"
  shows "\<bar>fl64 x - x\<bar> \<le> 1 / 2 ^ 42"
proof (cases "x = 0")
  case True
  then show ?thesis by (simp add: fl64_def round_float_zero)
next
  case False
  with assms have x: "0 < x" by simp
  have "x < 2 powi 12" using assms(2) by simp
  with x have "ilog2 x < 12" by (rule ilog2_less)
  then have "max (ilog2 \<bar>x\<bar> - int 53 + 1) (- 1074) \<le> - 41"
    using x by simp
  then have "(2::rat) powi max (ilog2 \<bar>x\<bar> - int 53 + 1) (- 1074) \<le> 2 powi (- 41)"
    by (rule power_int_increasing) simp
  then have "(2::rat) powi max (ilog2 \<bar>x\<bar> - int 53 + 1) (- 1074) / 2 \<le> 1 / 2 ^ 42"
    by (simp add: power_int_minus field_simps)
  with round_float_error [OF False, of 53 "- 1074"] show ?thesis
    unfolding fl64_def by linarith
qed

subsection \<open>Glyph mapper\<close>

lemma length_ramp: "length ASCII_CHARS = 10"
  by (simp add: ASCII_CHARS_def)

lemma pixel_index_eq: "pixel_index b = static_cast_int (fl64 (fl64 (b * 10) / 256))"
  by (simp add: pixel_index_def length_ramp)

lemma fl64_top: "fl64 (2550 / 256) = 2550 / 256"
  by code_simp

lemma pixel_index_floor:
  assumes "0 \<le> b"
  shows "pixel_index b = \<lfloor>fl64 (fl64 (b * 10) / 256)\<rfloor>"
proof -
  have "0 \<le> fl64 (b * 10)"
    using assms by (intro fl64_nonneg) simp
  then have "0 \<le> fl64 (fl64 (b * 10) / 256)"
    by (intro fl64_nonneg) simp
  then show ?thesis
    by (simp only: pixel_index_eq static_cast_int_def if_True)
qed

lemma pixel_index_nonneg:
  assumes "0 \<le> b"
  shows "0 \<le> pixel_index b"
proof -
  have "0 \<le> fl64 (b * 10)"
    using assms by (intro fl64_nonneg) simp
  then have "0 \<le> fl64 (fl64 (b * 10) / 256)"
    by (intro fl64_nonneg) simp
  then show ?thesis
    by (simp add: pixel_index_floor [OF assms])
qed

lemma pixel_index_le:
  assumes "0 \<le> b" and "b \<le> 255"
  shows "pixel_index b \<le> 9"
proof -
  have "fl64 (b * 10) \<le> fl64 2550"
    using assms(2) by (intro fl64_mono) simp_all
  then have "fl64 (b * 10) \<le> 2550"
    using fl64_of_int [of 2550] by simp
  then have "fl64 (fl64 (b * 10) / 256) \<le> fl64 (2550 / 256)"
    by (intro fl64_mono) simp_all
  then have "fl64 (fl64 (b * 10) / 256) \<le> 2550 / 256"
    by (simp only: fl64_top)
  then have "fl64 (fl64 (b * 10) / 256) < 10"
    by simp
  then show ?thesis
    by (simp add: pixel_index_floor [OF assms(1)] floor_le_iff)
qed

lemma pixel_index_mono:
  assumes "0 \<le> b" and "b \<le> b'"
  shows "pixel_index b \<le> pixel_index b'"
proof -
  from assms have b': "0 \<le> b'" by simp
  have y': "0 \<le> fl64 (b' * 10)"
    using b' by (intro fl64_nonneg) simp
  have "fl64 (b * 10) \<le> fl64 (b' * 10)"
    using assms(2) b' by (intro fl64_mono) simp_all
  then have "fl64 (fl64 (b * 10) / 256) \<le> fl64 (fl64 (b' * 10) / 256)"
    using y' by (intro fl64_mono) simp_all
  then show ?thesis
    by (simp only: pixel_index_floor [OF assms(1)] pixel_index_floor [OF b'] floor_mono)
qed

text \<open>The index is the exact quotient rounded down, or one more when the rounding of
  the product reaches the next multiple of 256.\<close>

lemma pixel_index_near:
  assumes "0 \<le> b" and "b \<le> 255"
  shows "\<lfloor>b * 10 / 256\<rfloor> \<le> pixel_index b \<and> pixel_index b \<le> \<lfloor>b * 10 / 256\<rfloor> + 1"
proof -
  define n where "n = \<lfloor>b * 10 / 256\<rfloor>"
  have n0: "0 \<le> n" unfolding n_def using assms(1) by simp
  have "b * 10 / 256 < 10" using assms(2) by simp
  then have n9: "n < 10" unfolding n_def by (simp add: floor_less_iff)
  have "of_int n \<le> b * 10 / 256" and "b * 10 / 256 < of_int n + 1"
    unfolding n_def by linarith+
  then have lo: "of_int (256 * n) \<le> b * 10" and hi: "b * 10 \<le> of_int (256 * (n + 1))"
    by simp_all
  have f1: "fl64 (of_int (256 * n)) = of_int (256 * n)"
    using n0 n9 by (intro fl64_of_int) simp_all
  have f2: "fl64 (of_int (256 * (n + 1))) = of_int (256 * (n + 1))"
    using n0 n9 by (intro fl64_of_int) simp_all
  have f3: "fl64 (of_int n) = of_int n"
    using n0 n9 by (intro fl64_of_int) simp_all
  have f4: "fl64 (of_int (n + 1)) = of_int (n + 1)"
    using n0 n9 by (intro fl64_of_int) simp_all
  have "fl64 (of_int (256 * n)) \<le> fl64 (b * 10)"
    using lo assms(1) by (intro fl64_mono) simp_all
  then have ylo: "of_int (256 * n) \<le> fl64 (b * 10)"
    by (simp only: f1)
  have "fl64 (b * 10) \<le> fl64 (of_int (256 * (n + 1)))"
    using hi n0 by (intro fl64_mono) simp_all
  then have yhi: "fl64 (b * 10) \<le> of_int (256 * (n + 1))"
    by (simp only: f2)
  have "of_int n \<le> fl64 (b * 10) / 256"
    using ylo by simp
  then have "fl64 (of_int n) \<le> fl64 (fl64 (b * 10) / 256)"
    using ylo n0 by (intro fl64_mono) simp_all
  then have zlo: "of_int n \<le> fl64 (fl64 (b * 10) / 256)"
    by (simp only: f3)
  have "fl64 (b * 10) / 256 \<le> of_int (n + 1)"
    using yhi by simp
  then have "fl64 (fl64 (b * 10) / 256) \<le> fl64 (of_int (n + 1))"
    using n0 by (intro fl64_mono) simp_all
  then have zhi: "fl64 (fl64 (b * 10) / 256) \<le> of_int (n + 1)"
    by (simp only: f4)
  from zlo have "n \<le> \<lfloor>fl64 (fl64 (b * 10) / 256)\<rfloor>"
    by (simp only: le_floor_iff)
  moreover from zhi have "\<lfloor>fl64 (fl64 (b * 10) / 256)\<rfloor> \<le> n + 1"
    by (metis floor_mono floor_of_int)
  ultimately show ?thesis
    unfolding n_def [symmetric] by (simp only: pixel_index_floor [OF assms(1)])
qed

lemma pixel_to_ascii_in_range:
  "0 \<le> b \<Longrightarrow> b \<le> 255 \<Longrightarrow> pixel_to_ascii b = Inr (ASCII_CHARS ! nat (pixel_index b))"
  using pixel_index_nonneg [of b] pixel_index_le [of b]
  by (simp add: pixel_to_ascii_def string_at_def length_ramp)

lemma ramp_nth_mem: "0 \<le> i \<Longrightarrow> i \<le> 9 \<Longrightarrow> ASCII_CHARS ! nat i \<in> set ASCII_CHARS"
  by (rule nth_mem) (simp add: length_ramp)

lemma distinct_ramp: "distinct ASCII_CHARS"
  by (simp add: ASCII_CHARS_def)

text \<open>
  Claim C5, as amended. For every brightness \<open>b\<close> in \<open>[0, 255]\<close> the glyph mapper
  returns, without a fault, one of the ten distinct characters of \<^verbatim>\<open>.-:=+*%#@$\<close>: it
  reads the ramp at the truncation of the \<^verbatim>\<open>double\<close> product \<open>b * 10\<close> divided by 256.
  This index lies in \<open>0..9\<close> with no clamp in the source; it is \<open>floor (b * 10 / 256)\<close>
  or one more; and a brightness \<open>b'\<close> in the range that is not below \<open>b\<close> has an index
  that is not below the index of \<open>b\<close>.
\<close>

theorem pixel_to_ascii_ramp:
  assumes "0 \<le> b" and "b \<le> b'" and "b' \<le> 255"
  shows "pixel_index b = \<lfloor>fl64 (fl64 (b * 10) / 256)\<rfloor>
    \<and> 0 \<le> pixel_index b \<and> pixel_index b \<le> 9
    \<and> pixel_to_ascii b = Inr (ASCII_CHARS ! nat (pixel_index b))
    \<and> ASCII_CHARS ! nat (pixel_index b) \<in> set ASCII_CHARS
    \<and> \<lfloor>b * 10 / 256\<rfloor> \<le> pixel_index b \<and> pixel_index b \<le> \<lfloor>b * 10 / 256\<rfloor> + 1
    \<and> pixel_index b \<le> pixel_index b'
    \<and> length ASCII_CHARS = 10 \<and> distinct ASCII_CHARS"
proof -
  from assms have b: "b \<le> 255" by simp
  have "pixel_index b = \<lfloor>fl64 (fl64 (b * 10) / 256)\<rfloor>"
    using assms(1) by (rule pixel_index_floor)
  moreover have nonneg: "0 \<le> pixel_index b"
    using assms(1) by (rule pixel_index_nonneg)
  moreover have le: "pixel_index b \<le> 9"
    using assms(1) b by (rule pixel_index_le)
  moreover have "pixel_to_ascii b = Inr (ASCII_CHARS ! nat (pixel_index b))"
    using assms(1) b by (rule pixel_to_ascii_in_range)
  moreover have "ASCII_CHARS ! nat (pixel_index b) \<in> set ASCII_CHARS"
    using nonneg le by (rule ramp_nth_mem)
  moreover have "\<lfloor>b * 10 / 256\<rfloor> \<le> pixel_index b \<and> pixel_index b \<le> \<lfloor>b * 10 / 256\<rfloor> + 1"
    using assms(1) b by (rule pixel_index_near)
  moreover have "pixel_index b \<le> pixel_index b'"
    using assms(1,2) by (rule pixel_index_mono)
  ultimately show ?thesis
    using length_ramp distinct_ramp by blast
qed

theorem pixel_to_ascii_ramp_witness:
  "(0::rat) \<le> 128 \<and> (128::rat) \<le> 255 \<and> (255::rat) \<le> 255
   \<and> pixel_index 128 = 5 \<and> pixel_to_ascii 128 = Inr CHR ''*''
   \<and> pixel_index 255 = 9 \<and> pixel_to_ascii 255 = Inr CHR ''$''
   \<and> pixel_index 128 \<le> pixel_index 255"
proof -
  have h: "(0::rat) \<le> 128" "(128::rat) \<le> 255" "(255::rat) \<le> 255"
    by simp_all
  from pixel_to_ascii_ramp [OF h] have "pixel_index 128 \<le> pixel_index 255"
    by blast
  moreover have "pixel_index 128 = 5 \<and> pixel_to_ascii 128 = Inr CHR ''*''
      \<and> pixel_index 255 = 9 \<and> pixel_to_ascii 255 = Inr CHR ''$''"
    by code_simp
  ultimately show ?thesis
    using h by blast
qed

text \<open>
  Claim C5 as stated fails. The \<^verbatim>\<open>double\<close> nearest to 76.8 is
  \<open>5404319552844595 / 2 ^ 46\<close>, just below 76.8. Its product with 10 rounds to 768, so
  the source reads the ramp at index 3, the character \<open>=\<close>, where
  \<open>floor (b * K / 256)\<close> is 2, the character \<open>:\<close>. And the source has no clamp: at 256
  it reads the terminating NUL of the ramp string, where a clamp would give \<open>$\<close>.
\<close>

theorem pixel_to_ascii_floor_counterexample:
  "fl64 (5404319552844595 / 2 ^ 46) = 5404319552844595 / 2 ^ 46
   \<and> (0::rat) \<le> 5404319552844595 / 2 ^ 46 \<and> (5404319552844595 / 2 ^ 46 :: rat) \<le> 255
   \<and> \<lfloor>(5404319552844595 / 2 ^ 46 :: rat) * 10 / 256\<rfloor> = 2
   \<and> glyph_mapper_spec (5404319552844595 / 2 ^ 46) = CHR '':''
   \<and> pixel_index (5404319552844595 / 2 ^ 46) = 3
   \<and> pixel_to_ascii (5404319552844595 / 2 ^ 46) = Inr CHR ''=''
   \<and> pixel_to_ascii 256 = Inr (CHR 0x00)
   \<and> glyph_mapper_spec 256 = CHR ''$''"
  by code_simp

subsection \<open>Decimal rendering\<close>

lemma digit_cases:
  "d < (10::nat) \<Longrightarrow> d = 0 \<or> d = 1 \<or> d = 2 \<or> d = 3 \<or> d = 4 \<or> d = 5 \<or> d = 6 \<or> d = 7 \<or> d = 8 \<or> d = 9"
  by arith

lemma digit_char_mem: "d < 10 \<Longrightarrow> digit_char d \<in> set ''0123456789''"
  using digit_cases [of d] by (auto simp: digit_char_def)

lemma digit_val_digit_char: "d < 10 \<Longrightarrow> digit_val (digit_char d) = d"
  using digit_cases [of d] by (auto simp: digit_char_def digit_val_def)

lemma digit_char_zero_iff: "d < 10 \<Longrightarrow> digit_char d = CHR ''0'' \<longleftrightarrow> d = 0"
  using digit_cases [of d] by (auto simp: digit_char_def)

lemma digits10_nonempty: "digits10 n \<noteq> []"
  by (subst digits10.simps) simp

lemma digits10_set: "set (digits10 n) \<subseteq> set ''0123456789''"
proof (induction n rule: digits10.induct)
  case (1 n)
  show ?case
  proof (cases "n < 10")
    case True
    then show ?thesis
      using digit_char_mem [of n] by (subst digits10.simps) simp
  next
    case False
    have "n mod 10 < 10" by simp
    then have "digit_char (n mod 10) \<in> set ''0123456789''" by (rule digit_char_mem)
    with False 1 show ?thesis
      by (subst digits10.simps) simp
  qed
qed

lemma decimal_value_snoc: "decimal_value (s @ [c]) = 10 * decimal_value s + digit_val c"
  by (simp add: decimal_value_def)

lemma decimal_value_digits10: "decimal_value (digits10 n) = n"
proof (induction n rule: digits10.induct)
  case (1 n)
  show ?case
  proof (cases "n < 10")
    case True
    then show ?thesis
      by (subst digits10.simps) (simp add: decimal_value_def digit_val_digit_char)
  next
    case False
    with 1 show ?thesis
      by (subst digits10.simps) (simp add: decimal_value_snoc digit_val_digit_char)
  qed
qed

lemma hd_digits10: "0 < n \<Longrightarrow> hd (digits10 n) \<noteq> CHR ''0''"
proof (induction n rule: digits10.induct)
  case (1 n)
  show ?case
  proof (cases "n < 10")
    case True
    with 1(2) show ?thesis
      by (subst digits10.simps) (simp add: digit_char_zero_iff)
  next
    case False
    then have "0 < n div 10" by simp
    with False 1(1) show ?thesis
      by (subst digits10.simps) (simp add: digits10_nonempty)
  qed
qed

lemma digits10_zero: "digits10 0 = ''0''"
  by (subst digits10.simps) (simp add: digit_char_def)

lemma canonical_digits10: "canonical_decimal (digits10 n)"
proof (cases "n = 0")
  case True
  then show ?thesis by (simp add: canonical_decimal_def digits10_zero)
next
  case False
  then show ?thesis
    using digits10_set [of n] by (simp add: canonical_decimal_def digits10_nonempty hd_digits10)
qed

lemma to_string_nonneg: "0 \<le> i \<Longrightarrow> to_string i = digits10 (nat i)"
  by (simp add: to_string_def)

lemma to_string_canonical:
  "0 \<le> i \<Longrightarrow> canonical_decimal (to_string i) \<and> int (decimal_value (to_string i)) = i"
  by (simp add: to_string_nonneg canonical_digits10 decimal_value_digits10)

subsection \<open>Color encoder\<close>

lemma channel_range: "0 \<le> uint w \<and> uint w \<le> 255" for w :: "8 word"
  using uint_bounded [of w] by simp

lemma channel_sum_range:
  fixes r g b :: "8 word"
  shows "0 \<le> uint r + uint g + uint b \<and> uint r + uint g + uint b \<le> 765"
  using channel_range [of r] channel_range [of g] channel_range [of b] by linarith

lemma mean_range:
  "0 \<le> s \<Longrightarrow> s \<le> 765 \<Longrightarrow> 0 \<le> (of_int s / 3 :: rat) \<and> (of_int s / 3 :: rat) \<le> 255"
  by simp

lemma brightness_range:
  fixes r g b :: "8 word"
  shows "0 \<le> (of_int (uint r + uint g + uint b) / 3 :: rat)
       \<and> (of_int (uint r + uint g + uint b) / 3 :: rat) \<le> 255"
  using channel_sum_range [of r g b] by (intro mean_range) blast+

text \<open>
  The mean of three channels with sum \<open>s\<close>. The exact quotient \<open>s / 3 * 10 / 256\<close> is an
  integer only for \<open>s = 0\<close> and \<open>s = 384\<close>; otherwise it is at least \<open>1 / 384\<close> away from
  every integer, so a value closer to it than that truncates to the same integer.
\<close>

lemma mean_not_integral:
  fixes s :: int
  assumes "0 < s" and "s \<le> 765" and "s \<noteq> 384"
  shows "1 \<le> (5 * s) mod 384 \<and> (5 * s) mod 384 \<le> 383"
proof -
  have "\<not> 384 dvd 5 * s"
  proof
    assume "384 dvd 5 * s"
    then have "384 dvd 77 * (5 * s)" by (rule dvd_mult)
    moreover have "77 * (5 * s) = 384 * s + s" by simp
    ultimately have "384 dvd 384 * s + s" by simp
    then have "384 dvd s" by (simp only: dvd_add_right_iff dvd_triv_left)
    then obtain k where k: "s = 384 * k" by (auto simp: dvd_def)
    with assms(1,2) have "0 < k" and "k < 2" by simp_all
    then have "k = 1" by simp
    with k assms(3) show False by simp
  qed
  then have "(5 * s) mod 384 \<noteq> 0"
    by (simp add: dvd_eq_mod_eq_0)
  moreover have "0 \<le> (5 * s) mod 384" and "(5 * s) mod 384 < 384"
    by simp_all
  ultimately show ?thesis by linarith
qed

lemma pixel_index_mean_stable:
  fixes s :: int and y :: rat
  assumes "0 < s" and "s \<le> 765" and "s \<noteq> 384"
    and "\<bar>y - of_int s / 3 * 10 / 256\<bar> < 1 / 384"
  shows "static_cast_int y = \<lfloor>of_int s / 3 * 10 / 256 :: rat\<rfloor>"
proof -
  define q where "q = (5 * s) div 384"
  define m where "m = (5 * s) mod 384"
  have m: "1 \<le> m \<and> m \<le> 383"
    unfolding m_def using assms(1-3) by (rule mean_not_integral)
  have "5 * s = 384 * q + m"
    unfolding q_def m_def by simp
  then have "(of_int (5 * s) :: rat) = of_int (384 * q + m)" by simp
  then have x: "(of_int s / 3 * 10 / 256 :: rat) = of_int q + of_int m / 384"
    by (simp add: field_simps)
  have "(1::rat) \<le> of_int m" and "(of_int m :: rat) \<le> 383"
    using m by simp_all
  then have frac: "(1 / 384 :: rat) \<le> of_int m / 384 \<and> (of_int m / 384 :: rat) \<le> 383 / 384"
    by simp
  define f :: rat where "f = of_int m / 384"
  from assms(4) have "\<bar>y - (of_int q + f)\<bar> < 1 / 384"
    unfolding x f_def .
  moreover from frac have "1 / 384 \<le> f \<and> f \<le> 383 / 384"
    unfolding f_def .
  ultimately have "of_int q < y \<and> y < of_int q + 1"
    by linarith
  then have fy: "\<lfloor>y\<rfloor> = q"
    by (simp add: floor_unique)
  have "0 \<le> q" unfolding q_def using assms(1) by simp
  with \<open>of_int q < y \<and> y < of_int q + 1\<close> have "0 \<le> y"
    by (metis less_eq_rat_def of_int_0_le_iff order_trans)
  have "\<lfloor>of_int q + of_int m / 384 :: rat\<rfloor> = q"
    using frac by (intro floor_unique) simp_all
  then have "\<lfloor>of_int s / 3 * 10 / 256 :: rat\<rfloor> = q"
    by (simp only: x)
  then show ?thesis
    using fy \<open>0 \<le> y\<close> by (simp add: static_cast_int_def)
qed

text \<open>
  The mapper applied to a value \<open>m\<close> within \<open>2 ^ -42\<close> of such a mean (the mean itself,
  or the mean rounded to \<^verbatim>\<open>double\<close> as the encoder passes it): the two roundings of
  the mapper add at most \<open>2 ^ -42\<close> each, far less than \<open>1 / 384\<close>.
\<close>

lemma pixel_index_near_mean:
  fixes s :: int and m :: rat
  assumes s: "0 < s" "s \<le> 765" "s \<noteq> 384"
    and m: "0 \<le> m" "m \<le> 255" "\<bar>m - of_int s / 3\<bar> \<le> 1 / 2 ^ 42"
  shows "pixel_index m = \<lfloor>of_int s / 3 * 10 / 256 :: rat\<rfloor>"
proof -
  define eps :: rat where "eps = 1 / 2 ^ 42"
  have eps: "0 < eps" "eps < 1 / 100000"
    by (simp_all add: eps_def)
  define y where "y = fl64 (m * 10)"
  define z where "z = fl64 (y / 256)"
  define x where "x = (of_int s / 3 :: rat)"
  have em: "\<bar>m - x\<bar> \<le> eps"
    unfolding eps_def x_def by (rule m(3))
  have ey: "\<bar>y - m * 10\<bar> \<le> eps"
    unfolding y_def eps_def using m(1,2) by (intro fl64_error) simp_all
  have y0: "0 \<le> y"
    unfolding y_def using m(1) by (intro fl64_nonneg) simp
  have "y \<le> m * 10 + eps"
    using ey by linarith
  with m(2) eps have y1: "y / 256 < 4096" by simp
  have "0 \<le> y / 256" using y0 by simp
  then have ez: "\<bar>z - y / 256\<bar> \<le> eps"
    unfolding z_def eps_def using y1 by (rule fl64_error)
  define u where "u = y / 256"
  define v where "v = x * 10 / 256"
  have "u - v = (y - m * 10) / 256 + (m - x) * 10 / 256"
    unfolding u_def v_def by (simp add: field_simps)
  moreover have "\<bar>(y - m * 10) / 256\<bar> \<le> eps"
    using ey by simp
  moreover have "\<bar>(m - x) * 10 / 256\<bar> \<le> eps"
    using em by simp
  ultimately have "\<bar>u - v\<bar> \<le> 2 * eps"
    by linarith
  moreover have "\<bar>z - u\<bar> \<le> eps"
    using ez unfolding u_def .
  ultimately have "\<bar>z - v\<bar> < 1 / 384"
    using eps by linarith
  then have "\<bar>z - of_int s / 3 * 10 / 256\<bar> < 1 / 384"
    unfolding v_def x_def .
  with s have "static_cast_int z = \<lfloor>of_int s / 3 * 10 / 256 :: rat\<rfloor>"
    by (rule pixel_index_mean_stable)
  then show ?thesis
    by (simp only: pixel_index_eq z_def y_def)
qed

lemma pixel_index_special:
  "pixel_index 0 = 0 \<and> fl64 0 = 0 \<and> pixel_index 128 = 5 \<and> fl64 128 = 128"
  by code_simp

text \<open>For every sum of three channels the mapper gets to the index of the exact mean,
  whether it is given the mean or the mean rounded to \<^verbatim>\<open>double\<close>.\<close>

lemma pixel_index_mean:
  fixes s :: int
  assumes "0 \<le> s" and "s \<le> 765"
  shows "pixel_index (of_int s / 3) = \<lfloor>of_int s / 3 * 10 / 256 :: rat\<rfloor>
       \<and> pixel_index (fl64 (of_int s / 3)) = \<lfloor>of_int s / 3 * 10 / 256 :: rat\<rfloor>"
proof -
  consider "s = 0" | "s = 384" | "0 < s" "s \<noteq> 384"
    using assms(1) by fastforce
  then show ?thesis
  proof cases
    case 1
    then show ?thesis using pixel_index_special by simp
  next
    case 2
    then show ?thesis using pixel_index_special by simp
  next
    case 3
    have r: "0 \<le> (of_int s / 3 :: rat)" "(of_int s / 3 :: rat) \<le> 255" "(of_int s / 3 :: rat) < 4096"
      using assms by simp_all
    have e: "\<bar>fl64 (of_int s / 3) - of_int s / 3\<bar> \<le> 1 / 2 ^ 42"
      using r(1,3) by (rule fl64_error)
    have f0: "0 \<le> fl64 (of_int s / 3)"
      using r(1) by (rule fl64_nonneg)
    have "fl64 (of_int s / 3) \<le> fl64 255"
      using r(2) by (intro fl64_mono) simp_all
    then have f1: "fl64 (of_int s / 3) \<le> 255"
      using fl64_of_int [of 255] by simp
    have "pixel_index (of_int s / 3) = \<lfloor>of_int s / 3 * 10 / 256 :: rat\<rfloor>"
      using 3 assms(2) r(1,2) by (intro pixel_index_near_mean) simp_all
    moreover have "pixel_index (fl64 (of_int s / 3)) = \<lfloor>of_int s / 3 * 10 / 256 :: rat\<rfloor>"
      using 3 assms(2) f0 f1 e by (intro pixel_index_near_mean)
    ultimately show ?thesis ..
  qed
qed

lemma pixel_index_channels:
  fixes r g b :: "8 word"
  shows "pixel_index (fl64 (of_int (uint r + uint g + uint b) / 3))
       = pixel_index (of_int (uint r + uint g + uint b) / 3)"
  using channel_sum_range [of r g b] pixel_index_mean [of "uint r + uint g + uint b"]
  by (simp only:)

lemma pixel_index_channels_floor:
  fixes r g b :: "8 word"
  shows "pixel_index (of_int (uint r + uint g + uint b) / 3)
       = \<lfloor>of_int (uint r + uint g + uint b) / 3 * 10 / 256 :: rat\<rfloor>"
  using channel_sum_range [of r g b] pixel_index_mean [of "uint r + uint g + uint b"]
  by blast

lemma pixel_to_ascii_mean:
  fixes r g b :: "8 word"
  shows "pixel_to_ascii (of_int (uint r + uint g + uint b) / 3) =
         Inr (ASCII_CHARS ! nat (pixel_index (of_int (uint r + uint g + uint b) / 3)))"
  using brightness_range [of r g b] by (intro pixel_to_ascii_in_range) blast+

lemma pixel_to_ascii_rounded_mean:
  fixes r g b :: "8 word"
  shows "pixel_to_ascii (fl64 (of_int (uint r + uint g + uint b) / 3)) =
         Inr (ASCII_CHARS ! nat (pixel_index (of_int (uint r + uint g + uint b) / 3)))"
proof -
  have "pixel_to_ascii (fl64 (of_int (uint r + uint g + uint b) / 3))
      = string_at ASCII_CHARS (pixel_index (of_int (uint r + uint g + uint b) / 3))"
    by (simp only: pixel_to_ascii_def pixel_index_channels)
  also have "\<dots> = pixel_to_ascii (of_int (uint r + uint g + uint b) / 3)"
    by (simp only: pixel_to_ascii_def)
  finally show ?thesis
    by (simp only: pixel_to_ascii_mean)
qed

lemma apply_color_to_ascii_eq:
  "apply_color_to_ascii pixel =
     Inr (ESC # ''[38;2;'' @ to_string (uint (c2 pixel)) @ '';'' @ to_string (uint (c1 pixel))
          @ '';'' @ to_string (uint (c0 pixel)) @ ''m''
          @ [ASCII_CHARS ! nat (pixel_index (of_int (uint (c2 pixel) + uint (c1 pixel) + uint (c0 pixel)) / 3))])"
  by (simp only: apply_color_to_ascii_def Let_def pixel_to_ascii_rounded_mean sum.case append.simps)

text \<open>
  Claim C4. With \<open>r\<close>, \<open>g\<close>, \<open>b\<close> the channel values the encoder reads (each in
  \<open>[0, 255]\<close>), its output is the byte 0x1B, then \<open>[38;2;\<close>, the three values in
  decimal separated by \<open>;\<close> (no sign, no padding, no leading zero: each numeral is
  canonical and has the channel as its value), then \<open>m\<close>, then exactly one character:
  the glyph the mapper returns for the brightness \<open>(r + g + b) / 3\<close>, a rational
  number, truncated only inside the mapper. The mapper returns this glyph for the
  exact mean and for the mean rounded to \<^verbatim>\<open>double\<close>, which is what the encoder
  passes to it.
\<close>

theorem apply_color_to_ascii_wire_format:
  fixes pixel :: Vec3b
  shows "let r = uint (c2 pixel); g = uint (c1 pixel); b = uint (c0 pixel);
             brightness = (of_int (r + g + b) / 3 :: rat);
             glyph = ASCII_CHARS ! nat \<lfloor>brightness * 10 / 256\<rfloor>
         in apply_color_to_ascii pixel =
              Inr (CHR 0x1B # ''[38;2;'' @ to_string r @ '';'' @ to_string g @ '';'' @ to_string b
                   @ ''m'' @ [glyph])
          \<and> pixel_to_ascii brightness = Inr glyph
          \<and> pixel_to_ascii (fl64 brightness) = Inr glyph
          \<and> glyph \<in> set ASCII_CHARS
          \<and> (\<forall>c \<in> {r, g, b}. 0 \<le> c \<and> c \<le> 255 \<and> canonical_decimal (to_string c)
                \<and> int (decimal_value (to_string c)) = c)"
proof -
  define r g b where "r = uint (c2 pixel)" and "g = uint (c1 pixel)" and "b = uint (c0 pixel)"
  define brightness :: rat where "brightness = of_int (r + g + b) / 3"
  define glyph where "glyph = ASCII_CHARS ! nat \<lfloor>brightness * 10 / 256\<rfloor>"
  have range: "0 \<le> brightness \<and> brightness \<le> 255"
    unfolding brightness_def r_def g_def b_def by (rule brightness_range)
  have idx: "pixel_index brightness = \<lfloor>brightness * 10 / 256\<rfloor>"
    unfolding brightness_def r_def g_def b_def by (rule pixel_index_channels_floor)
  have 1: "apply_color_to_ascii pixel =
      Inr (CHR 0x1B # ''[38;2;'' @ to_string r @ '';'' @ to_string g @ '';'' @ to_string b
           @ ''m'' @ [glyph])"
    unfolding glyph_def idx [symmetric]
    unfolding brightness_def r_def g_def b_def ESC_def [symmetric]
    by (rule apply_color_to_ascii_eq)
  have 2: "pixel_to_ascii brightness = Inr glyph"
    unfolding glyph_def idx [symmetric] using range by (simp only: pixel_to_ascii_in_range)
  have 5: "pixel_to_ascii (fl64 brightness) = Inr glyph"
    unfolding glyph_def idx [symmetric]
    unfolding brightness_def r_def g_def b_def
    by (rule pixel_to_ascii_rounded_mean)
  have 3: "glyph \<in> set ASCII_CHARS"
    unfolding glyph_def idx [symmetric]
    using range by (intro ramp_nth_mem pixel_index_nonneg pixel_index_le) blast+
  have 4: "0 \<le> c \<and> c \<le> 255 \<and> canonical_decimal (to_string c) \<and> int (decimal_value (to_string c)) = c"
    if "c \<in> {r, g, b}" for c
  proof -
    from that have "0 \<le> c \<and> c \<le> 255"
      unfolding r_def g_def b_def using channel_range by blast
    then show ?thesis using to_string_canonical [of c] by blast
  qed
  from 1 2 3 4 5 show ?thesis
    unfolding Let_def r_def g_def b_def brightness_def glyph_def by blast
qed

theorem apply_color_to_ascii_wire_format_witness:
  "apply_color_to_ascii (Vec3b 0 0 77) = Inr (CHR 0x1B # ''[38;2;77;0;0m-'')
   \<and> pixel_to_ascii (77 / 3) = Inr CHR ''-''
   \<and> pixel_to_ascii (of_int (77 div 3)) = Inr CHR ''.''
   \<and> canonical_decimal (to_string 77) \<and> decimal_value (to_string 77) = 77"
proof -
  have c: "apply_color_to_ascii (Vec3b 0 0 77) = Inr (CHR 0x1B # ''[38;2;77;0;0m-'')
      \<and> pixel_to_ascii (of_int (77 div 3)) = Inr CHR ''.''
      \<and> canonical_decimal (to_string 77) \<and> decimal_value (to_string 77) = 77
      \<and> uint (77 :: 8 word) = 77 \<and> uint (0 :: 8 word) = 0
      \<and> ASCII_CHARS ! nat \<lfloor>(77 / 3 :: rat) * 10 / 256\<rfloor> = CHR ''-''"
    by code_simp
  from apply_color_to_ascii_wire_format [of "Vec3b 0 0 77"]
  have "pixel_to_ascii (of_int (uint (77 :: 8 word) + uint (0 :: 8 word) + uint (0 :: 8 word)) / 3)
      = Inr (ASCII_CHARS ! nat \<lfloor>(of_int (uint (77 :: 8 word) + uint (0 :: 8 word) + uint (0 :: 8 word)) / 3 :: rat) * 10 / 256\<rfloor>)"
    unfolding Let_def Vec3b.sel by blast
  then have "pixel_to_ascii (77 / 3) = Inr CHR ''-''"
    using c by simp
  with c show ?thesis by blast
qed

text \<open>
  Claim C10. For the stored triple \<open>(x0, x1, x2)\<close> the escape sequence carries \<open>x2\<close> in
  the first field, \<open>x1\<close> in the second and \<open>x0\<close> in the third: the triple is read as
  (B, G, R). The glyph is the one for the mean of the three, so the triple stored in
  the opposite order gets the same glyph.
\<close>

theorem apply_color_to_ascii_bgr:
  "\<exists>glyph.
     apply_color_to_ascii (Vec3b x0 x1 x2) =
       Inr (CHR 0x1B # ''[38;2;'' @ to_string (uint x2) @ '';'' @ to_string (uint x1) @ '';''
            @ to_string (uint x0) @ ''m'' @ [glyph])
   \<and> apply_color_to_ascii (Vec3b x2 x1 x0) =
       Inr (CHR 0x1B # ''[38;2;'' @ to_string (uint x0) @ '';'' @ to_string (uint x1) @ '';''
            @ to_string (uint x2) @ ''m'' @ [glyph])
   \<and> pixel_to_ascii (of_int (uint x0 + uint x1 + uint x2) / 3) = Inr glyph"
proof -
  have comm: "uint x2 + uint x1 + uint x0 = uint x0 + uint x1 + uint x2"
    by simp
  show ?thesis
    by (simp only: apply_color_to_ascii_eq Vec3b.sel comm ESC_def pixel_to_ascii_mean) blast
qed

theorem apply_color_to_ascii_bgr_witness:
  "apply_color_to_ascii (Vec3b 1 20 255) = Inr (CHR 0x1B # ''[38;2;255;20;1m='')
   \<and> apply_color_to_ascii (Vec3b 255 20 1) = Inr (CHR 0x1B # ''[38;2;1;20;255m='')"
proof -
  have c: "apply_color_to_ascii (Vec3b 1 20 255) = Inr (CHR 0x1B # ''[38;2;255;20;1m='')
      \<and> to_string (uint (1 :: 8 word)) = ''1'' \<and> to_string (uint (20 :: 8 word)) = ''20''
      \<and> to_string (uint (255 :: 8 word)) = ''255''"
    by code_simp
  from apply_color_to_ascii_bgr [of 1 20 255] obtain glyph where
    1: "apply_color_to_ascii (Vec3b 1 20 255) =
       Inr (CHR 0x1B # ''[38;2;'' @ to_string (uint (255 :: 8 word)) @ '';'' @ to_string (uint (20 :: 8 word)) @ '';''
            @ to_string (uint (1 :: 8 word)) @ ''m'' @ [glyph])"
    and 2: "apply_color_to_ascii (Vec3b 255 20 1) =
       Inr (CHR 0x1B # ''[38;2;'' @ to_string (uint (1 :: 8 word)) @ '';'' @ to_string (uint (20 :: 8 word)) @ '';''
            @ to_string (uint (255 :: 8 word)) @ ''m'' @ [glyph])"
    by blast
  from 1 c have "glyph = CHR ''=''" by simp
  with 2 c show ?thesis by simp
qed

subsection \<open>Frame converter\<close>

lemma apply_color_to_ascii_glyph_unit: "apply_color_to_ascii pixel = Inr (glyph_unit pixel)"
  by (simp only: glyph_unit_def apply_color_to_ascii_eq sum.case)

lemma glyph_unit_eq:
  "glyph_unit pixel =
     ESC # ''[38;2;'' @ to_string (uint (c2 pixel)) @ '';'' @ to_string (uint (c1 pixel))
       @ '';'' @ to_string (uint (c0 pixel)) @ ''m''
       @ [ASCII_CHARS ! nat (pixel_index (of_int (uint (c2 pixel) + uint (c1 pixel) + uint (c0 pixel)) / 3))]"
  by (simp only: glyph_unit_def apply_color_to_ascii_eq sum.case)

lemma channel_digits: "set (to_string (uint w)) \<subseteq> set ''0123456789''" for w :: "8 word"
  using digits10_set [of "nat (uint w)"] by (simp only: to_string_nonneg [OF uint_ge_0])

lemma ramp_glyph_mean:
  fixes r g b :: "8 word"
  shows "ASCII_CHARS ! nat (pixel_index (of_int (uint r + uint g + uint b) / 3)) \<in> set ASCII_CHARS"
  using brightness_range [of r g b]
  by (intro ramp_nth_mem pixel_index_nonneg pixel_index_le) blast+

lemma glyph_unit_chars:
  "set (glyph_unit pixel) \<subseteq> {ESC} \<union> set ''[38;2;m'' \<union> set ''0123456789'' \<union> set ASCII_CHARS"
  using channel_digits [of "c2 pixel"] channel_digits [of "c1 pixel"] channel_digits [of "c0 pixel"]
    ramp_glyph_mean [of "c2 pixel" "c1 pixel" "c0 pixel"]
  by (auto simp: glyph_unit_eq)

lemma newline_notin_glyph_unit: "newline \<notin> set (glyph_unit pixel)"
  using glyph_unit_chars [of pixel] by (auto simp: newline_def ESC_def ASCII_CHARS_def)

lemma count_list_0: "x \<notin> set xs \<Longrightarrow> count_list xs x = 0"
  by (induction xs) auto

lemma ESC_notin_digits: "ESC \<notin> set (to_string (uint w))" for w :: "8 word"
  using channel_digits [of w] by (auto simp: ESC_def)

lemma count_ESC_glyph_unit: "count_list (glyph_unit pixel) ESC = 1"
proof -
  have "ASCII_CHARS ! nat (pixel_index (of_int (uint (c2 pixel) + uint (c1 pixel) + uint (c0 pixel)) / 3)) \<noteq> ESC"
    using ramp_glyph_mean [of "c2 pixel" "c1 pixel" "c0 pixel"]
    by (auto simp: ESC_def ASCII_CHARS_def)
  then show ?thesis
    by (simp add: glyph_unit_eq count_list_0 ESC_notin_digits) (simp add: ESC_def)
qed

lemma cols_loop_eq:
  "j \<le> cols frame \<Longrightarrow>
   cols_loop frame i j acc =
     Inr (acc @ concat (map (\<lambda>j. glyph_unit (at_Vec3b frame i j)) [j..<cols frame]))"
proof (induction frame i j acc rule: cols_loop.induct)
  case (1 frame i j acc)
  show ?case
  proof (cases "j < cols frame")
    case True
    then have "cols_loop frame i (j + 1) (acc @ glyph_unit (at_Vec3b frame i j)) =
        Inr ((acc @ glyph_unit (at_Vec3b frame i j))
             @ concat (map (\<lambda>j. glyph_unit (at_Vec3b frame i j)) [j + 1..<cols frame]))"
      by (intro 1(1) [OF True apply_color_to_ascii_glyph_unit]) simp
    with True show ?thesis
      by (subst cols_loop.simps) (simp add: apply_color_to_ascii_glyph_unit upt_conv_Cons)
  next
    case False
    with 1(2) show ?thesis
      by (subst cols_loop.simps) simp
  qed
qed

lemma cols_loop_row: "cols_loop frame i 0 acc = Inr (acc @ ascii_row frame i)"
  by (simp add: cols_loop_eq ascii_row_def)

lemma rows_loop_eq:
  "i \<le> rows frame \<Longrightarrow>
   rows_loop frame i acc =
     Inr (acc @ concat (map (\<lambda>i. ascii_row frame i @ [newline]) [i..<rows frame]))"
proof (induction frame i acc rule: rows_loop.induct)
  case (1 frame i acc)
  show ?case
  proof (cases "i < rows frame")
    case True
    then have "rows_loop frame (i + 1) ((acc @ ascii_row frame i) @ [newline]) =
        Inr (((acc @ ascii_row frame i) @ [newline])
             @ concat (map (\<lambda>i. ascii_row frame i @ [newline]) [i + 1..<rows frame]))"
      by (intro 1(1) [OF True cols_loop_row]) simp
    with True show ?thesis
      by (subst rows_loop.simps) (simp add: cols_loop_row upt_conv_Cons)
  next
    case False
    with 1(2) show ?thesis
      by (subst rows_loop.simps) simp
  qed
qed

lemma convert_frame_to_ascii_eq:
  "convert_frame_to_ascii frame =
     Inr (concat (map (\<lambda>i. ascii_row frame i @ [newline]) [0..<rows frame]))"
  by (simp add: convert_frame_to_ascii_def rows_loop_eq)

lemma newline_notin_ascii_row: "newline \<notin> set (ascii_row frame i)"
  by (simp add: ascii_row_def newline_notin_glyph_unit)

lemma count_list_append: "count_list (xs @ ys) x = count_list xs x + count_list ys x"
  by (induction xs) auto

lemma count_list_concat_const:
  "(\<forall>u \<in> set us. count_list u x = 1) \<Longrightarrow> count_list (concat us) x = length us"
  by (induction us) (auto simp: count_list_append)

lemma count_ESC_ascii_row: "count_list (ascii_row frame i) ESC = cols frame"
proof -
  have "count_list (ascii_row frame i) ESC
      = length (map (\<lambda>j. glyph_unit (at_Vec3b frame i j)) [0..<cols frame])"
    unfolding ascii_row_def
    by (rule count_list_concat_const) (auto simp: count_ESC_glyph_unit)
  then show ?thesis by simp
qed

lemma split_lines_line:
  "newline \<notin> set l \<Longrightarrow> split_lines cur (l @ newline # rest) = (cur @ l) # split_lines [] rest"
  by (induction l arbitrary: cur) auto

lemma lines_of_terminated:
  "(\<forall>l \<in> set ls. newline \<notin> set l) \<Longrightarrow> lines_of (concat (map (\<lambda>l. l @ [newline]) ls)) = ls"
  unfolding lines_of_def
proof (induction ls)
  case Nil
  then show ?case by simp
next
  case (Cons l ls)
  then have "split_lines [] (l @ newline # concat (map (\<lambda>l. l @ [newline]) ls)) = l # ls"
    by (simp add: split_lines_line)
  then show ?case by simp
qed

lemma lines_of_rows:
  "lines_of (concat (map (\<lambda>i. ascii_row frame i @ [newline]) [0..<rows frame]))
     = map (ascii_row frame) [0..<rows frame]"
proof -
  have "lines_of (concat (map (\<lambda>l. l @ [newline]) (map (ascii_row frame) [0..<rows frame])))
      = map (ascii_row frame) [0..<rows frame]"
    by (rule lines_of_terminated) (auto simp: newline_notin_ascii_row)
  then show ?thesis by (simp add: comp_def)
qed


text \<open>
  Claim C3. The converter never faults. Its output is, for the rows \<open>0, 1, \<dots>\<close> in this
  order, the glyph units of the columns \<open>0, 1, \<dots>\<close> of the row in this order, followed by
  one newline. So the output splits into exactly \<open>rows\<close> newline-terminated lines, line
  \<open>i\<close> consists of the \<open>cols\<close> glyph units of row \<open>i\<close> and holds exactly \<open>cols\<close> escape
  characters, one per unit. A 2 by 2 frame of black pixels gives two lines, each
  \<^verbatim>\<open>ESC[38;2;0;0;0m.\<close> twice.
\<close>

theorem convert_frame_to_ascii_lines:
  "\<exists>out.
     convert_frame_to_ascii frame = Inr out
   \<and> out = concat (map (\<lambda>i. concat (map (\<lambda>j. glyph_unit (at_Vec3b frame i j)) [0..<cols frame])
                               @ [newline]) [0..<rows frame])
   \<and> length (lines_of out) = rows frame
   \<and> count_list out newline = rows frame
   \<and> (\<forall>i < rows frame.
         lines_of out ! i = concat (map (\<lambda>j. glyph_unit (at_Vec3b frame i j)) [0..<cols frame])
       \<and> count_list (lines_of out ! i) ESC = cols frame)
   \<and> (\<forall>pixel. apply_color_to_ascii pixel = Inr (glyph_unit pixel)
         \<and> count_list (glyph_unit pixel) ESC = 1 \<and> newline \<notin> set (glyph_unit pixel))
   \<and> convert_frame_to_ascii (black_frame 2 2) =
       Inr (CHR 0x1B # ''[38;2;0;0;0m.'' @ CHR 0x1B # ''[38;2;0;0;0m.'' @ [CHR 0x0A]
            @ CHR 0x1B # ''[38;2;0;0;0m.'' @ CHR 0x1B # ''[38;2;0;0;0m.'' @ [CHR 0x0A])"
proof -
  define out where "out = concat (map (\<lambda>i. ascii_row frame i @ [newline]) [0..<rows frame])"
  have 1: "convert_frame_to_ascii frame = Inr out"
    unfolding out_def by (rule convert_frame_to_ascii_eq)
  have 2: "out = concat (map (\<lambda>i. concat (map (\<lambda>j. glyph_unit (at_Vec3b frame i j)) [0..<cols frame])
                               @ [newline]) [0..<rows frame])"
    unfolding out_def ascii_row_def ..
  have lines: "lines_of out = map (ascii_row frame) [0..<rows frame]"
    unfolding out_def by (rule lines_of_rows)
  then have 3: "length (lines_of out) = rows frame"
    by simp
  have "count_list out newline = length (map (\<lambda>i. ascii_row frame i @ [newline]) [0..<rows frame])"
    unfolding out_def
    by (rule count_list_concat_const)
      (auto simp: count_list_append count_list_0 newline_notin_ascii_row)
  then have 4: "count_list out newline = rows frame"
    by simp
  have 5: "lines_of out ! i = concat (map (\<lambda>j. glyph_unit (at_Vec3b frame i j)) [0..<cols frame])
       \<and> count_list (lines_of out ! i) ESC = cols frame" if "i < rows frame" for i
    using that by (simp add: lines count_ESC_ascii_row) (simp add: ascii_row_def)
  have 6: "apply_color_to_ascii pixel = Inr (glyph_unit pixel)
         \<and> count_list (glyph_unit pixel) ESC = 1 \<and> newline \<notin> set (glyph_unit pixel)" for pixel
    by (simp add: apply_color_to_ascii_glyph_unit count_ESC_glyph_unit newline_notin_glyph_unit)
  have 7: "convert_frame_to_ascii (black_frame 2 2) =
       Inr (CHR 0x1B # ''[38;2;0;0;0m.'' @ CHR 0x1B # ''[38;2;0;0;0m.'' @ [CHR 0x0A]
            @ CHR 0x1B # ''[38;2;0;0;0m.'' @ CHR 0x1B # ''[38;2;0;0;0m.'' @ [CHR 0x0A])"
    by code_simp
  from 1 2 3 4 5 6 7 show ?thesis by blast
qed

theorem convert_frame_to_ascii_lines_witness:
  "\<exists>out. convert_frame_to_ascii \<lparr>rows = 2, cols = 3, at_Vec3b = \<lambda>i j. Vec3b 0 0 77\<rparr> = Inr out
     \<and> length (lines_of out) = 2 \<and> (1::nat) < 2 \<and> count_list (lines_of out ! 1) ESC = 3"
  using convert_frame_to_ascii_lines [of "\<lparr>rows = 2, cols = 3, at_Vec3b = \<lambda>i j. Vec3b 0 0 77\<rparr>"]
  by fastforce

text \<open>
  Claim C9, as amended. A frame with no row or no column is converted like any other,
  without a fault: the result is one newline per row, so the empty string when the
  frame has no row.
\<close>

theorem convert_frame_to_ascii_degenerate:
  assumes "rows frame = 0 \<or> cols frame = 0"
  shows "convert_frame_to_ascii frame = Inr (replicate (rows frame) newline)"
proof -
  have "concat (map (\<lambda>i. ascii_row frame i @ [newline]) [0..<n]) = replicate n newline"
    if "cols frame = 0" for n
    using that by (induction n) (simp_all add: ascii_row_def replicate_append_same)
  with assms show ?thesis
    by (auto simp: convert_frame_to_ascii_eq)
qed

theorem convert_frame_to_ascii_degenerate_witness:
  "cols (black_frame 2 0) = 0 \<and> convert_frame_to_ascii (black_frame 2 0) = Inr [CHR 0x0A, CHR 0x0A]"
  using convert_frame_to_ascii_degenerate [of "black_frame 2 0"]
  by (simp add: black_frame_def newline_def numeral_2_eq_2)

text \<open>Claim C9 as stated fails: a frame without rows is converted to the empty string.\<close>

theorem convert_frame_to_ascii_empty_counterexample:
  "convert_frame_to_ascii (black_frame 0 3) = Inr []"
  by code_simp

subsection \<open>Progress tracker\<close>

lemma display_progress_fields:
  "ascii_frames (display_progress p st) = ascii_frames st"
  "completed_frames (display_progress p st) = completed_frames st"
  by (simp_all add: display_progress_def)








subsection \<open>Worker\<close>

lemma converted_mono: "converted frames P st \<Longrightarrow> P \<subseteq> Q \<Longrightarrow> converted frames Q st"
  unfolding converted_def by blast

lemma process_frame_eq:
  assumes "i < length frames" and "length (ascii_frames st) = length frames"
    and "total_frames \<noteq> 0" and "convert_frame_to_ascii (frames ! i) = Inr s"
  shows "process_frame i frames total_frames st =
     Inr (display_progress (progress_fraction (completed_frames st + 1) total_frames)
            (st\<lparr>ascii_frames := (ascii_frames st)[i := s],
                completed_frames := completed_frames st + 1\<rparr>))"
  using assms by (simp add: process_frame_def Let_def)

lemma process_frame_converted:
  assumes "i < length frames" and "total_frames \<noteq> 0" and "converted frames P st"
  shows "\<exists>st'. process_frame i frames total_frames st = Inr st' \<and> converted frames (P - {i}) st'"
proof -
  from assms(3) have len: "length (ascii_frames st) = length frames"
    by (simp add: converted_def)
  obtain s where s: "convert_frame_to_ascii (frames ! i) = Inr s"
    using convert_frame_to_ascii_eq by blast
  let ?st' = "display_progress (progress_fraction (completed_frames st + 1) total_frames)
            (st\<lparr>ascii_frames := (ascii_frames st)[i := s],
                completed_frames := completed_frames st + 1\<rparr>)"
  have "converted frames (P - {i}) ?st'"
    using assms(1,3) s len
    by (auto simp: converted_def display_progress_fields nth_list_update)
  with process_frame_eq [OF assms(1) len assms(2) s] show ?thesis
    by blast
qed

lemma process_frames_visit:
  "process_frames start end_idx frames total_frames st = visit [start..<end_idx] frames total_frames st"
proof (induction start end_idx frames total_frames st rule: process_frames.induct)
  case (1 start end_idx frames total_frames st)
  show ?case
  proof (cases "start < end_idx")
    case True
    then show ?thesis
      using 1 [OF True]
      by (subst process_frames.simps) (auto simp: upt_conv_Cons split: sum.splits)
  next
    case False
    then show ?thesis
      by (subst process_frames.simps) simp
  qed
qed

lemma visit_converted:
  assumes "\<forall>i \<in> set is. i < length frames" and "frames \<noteq> [] \<longrightarrow> total_frames \<noteq> 0"
    and "converted frames P st"
  shows "\<exists>st'. visit is frames total_frames st = Inr st' \<and> converted frames (P - set is) st'"
  using assms
proof (induction "is" arbitrary: P st)
  case Nil
  then show ?case by simp
next
  case (Cons i "is")
  from Cons.prems(1) have i: "i < length frames" by simp
  with Cons.prems(2) have "total_frames \<noteq> 0" by auto
  from process_frame_converted [OF i this Cons.prems(3)]
  obtain st1 where st1: "process_frame i frames total_frames st = Inr st1"
    and c1: "converted frames (P - {i}) st1" by blast
  from Cons.prems(1) have "\<forall>i \<in> set is. i < length frames" by simp
  from Cons.IH [OF this Cons.prems(2) c1]
  obtain st' where "visit is frames total_frames st1 = Inr st'"
    and "converted frames (P - {i} - set is) st'" by blast
  moreover have "P - {i} - set is = P - set (i # is)" by auto
  ultimately show ?case using st1 by simp
qed

lemma process_frames_converted:
  assumes "end_idx \<le> length frames" and "frames \<noteq> [] \<longrightarrow> total_frames \<noteq> 0"
    and "converted frames P st"
  shows "\<exists>st'. process_frames start end_idx frames total_frames st = Inr st'
           \<and> converted frames (P - {start..<end_idx}) st'"
proof -
  have "\<forall>i \<in> set [start..<end_idx]. i < length frames"
    using assms(1) by simp
  from visit_converted [OF this assms(2,3)] show ?thesis
    by (simp add: process_frames_visit)
qed

subsection \<open>Steps of a worker\<close>

lemma run_worker_step:
  "fst w < fst (snd w) \<Longrightarrow>
   run_worker frames total_frames w st =
     (case worker_step frames total_frames w st of
        Inl e \<Rightarrow> Inl e
      | Inr (w', st') \<Rightarrow> run_worker frames total_frames w' st')"
  by (subst run_worker.simps) simp

lemma run_worker_ended:
  "\<not> fst w < fst (snd w) \<Longrightarrow> run_worker frames total_frames w st = Inr st"
  by (subst run_worker.simps) simp



text \<open>A step of a worker keeps what is converted, and converts the frame of its index when
  it is the first step of an iteration.\<close>

lemma worker_step_converted:
  assumes "i < end_idx" and "end_idx \<le> length frames" and "total_frames \<noteq> 0"
    and "converted frames P st"
  shows "\<exists>w' st'. worker_step frames total_frames (i, end_idx, pl) st = Inr (w', st')
           \<and> fst (snd w') = end_idx
           \<and> converted frames (P - (pend (i, end_idx, pl) - pend w')) st'"
proof (cases pl)
  case AtConvert
  from assms(4) have len: "length (ascii_frames st) = length frames"
    by (simp add: converted_def)
  obtain s where s: "convert_frame_to_ascii (frames ! i) = Inr s"
    using convert_frame_to_ascii_eq by blast
  have "converted frames (P - {i}) (st\<lparr>ascii_frames := (ascii_frames st)[i := s]\<rparr>)"
    using assms(1,2,4) s len by (auto simp: converted_def nth_list_update)
  moreover have "pend (i, end_idx, AtConvert) - pend (i, end_idx, AtCount) = {i}"
    using assms(1) by auto
  ultimately show ?thesis
    using AtConvert assms(1,2) s len by simp
next
  case AtCount
  with assms(4) show ?thesis by (simp add: converted_def)
next
  case AtLoad
  with assms(3,4) show ?thesis by (simp add: converted_def)
next
  case (AtTest p)
  with assms(4) show ?thesis by (simp add: converted_def)
next
  case (AtAssign p)
  with assms(4) show ?thesis by (simp add: converted_def)
next
  case (AtPrint p)
  with assms(4) show ?thesis by (simp add: converted_def)
qed

lemma pend_ended: "\<not> fst w < fst (snd w) \<Longrightarrow> pend w = {}"
  by (cases w) auto

lemma run_worker_converted:
  assumes "fst (snd w) \<le> length frames" and "frames \<noteq> [] \<longrightarrow> total_frames \<noteq> 0"
    and "converted frames P st"
  shows "\<exists>st'. run_worker frames total_frames w st = Inr st' \<and> converted frames (P - pend w) st'"
  using assms
proof (induction frames total_frames w st arbitrary: P rule: run_worker.induct)
  case (1 frames total_frames w st)
  show ?case
  proof (cases "fst w < fst (snd w)")
    case True
    obtain i end_idx pl where w: "w = (i, end_idx, pl)" by (cases w)
    from True w have lt: "i < end_idx" by simp
    from "1.prems"(1) w have e: "end_idx \<le> length frames" by simp
    from lt e "1.prems"(2) have total: "total_frames \<noteq> 0" by auto
    from worker_step_converted [OF lt e total "1.prems"(3), of pl]
    obtain w' st1 where step: "worker_step frames total_frames w st = Inr (w', st1)"
      and e': "fst (snd w') = end_idx"
      and c: "converted frames (P - (pend w - pend w')) st1"
      unfolding w by blast
    from e e' have "fst (snd w') \<le> length frames" by simp
    from "1.IH" [OF True step refl this "1.prems"(2) c]
    obtain st' where run: "run_worker frames total_frames w' st1 = Inr st'"
      and c': "converted frames (P - (pend w - pend w') - pend w') st'" by blast
    have "P - (pend w - pend w') - pend w' \<subseteq> P - pend w" by blast
    with c' have "converted frames (P - pend w) st'" by (rule converted_mono)
    with run step True show ?thesis
      by (simp add: run_worker_step)
  next
    case False
    with "1.prems"(3) show ?thesis
      by (simp add: run_worker_ended pend_ended)
  qed
qed

subsection \<open>Dispatcher\<close>

lemma pending_update:
  assumes "k < length ws"
  shows "pending ws - (pend (ws ! k) - pend w') \<subseteq> pending (ws[k := w'])"
proof
  fix j assume j: "j \<in> pending ws - (pend (ws ! k) - pend w')"
  then obtain w where w: "w \<in> set ws" "j \<in> pend w"
    by (auto simp: pending_def)
  then obtain m where m: "m < length ws" "ws ! m = w"
    by (auto simp: in_set_conv_nth)
  have "\<exists>v \<in> set (ws[k := w']). j \<in> pend v"
  proof (cases "m = k")
    case True
    with j w m have "j \<in> pend w'" by auto
    moreover have "w' \<in> set (ws[k := w'])"
      using assms by (simp add: set_update_memI)
    ultimately show ?thesis by blast
  next
    case False
    with m have "ws[k := w'] ! m = w" by simp
    moreover have "ws[k := w'] ! m \<in> set (ws[k := w'])"
      using m(1) by (intro nth_mem) simp
    ultimately show ?thesis using w by auto
  qed
  then show "j \<in> pending (ws[k := w'])"
    by (auto simp: pending_def)
qed

lemma pool_step_converted:
  assumes "\<forall>w \<in> set ws. fst (snd w) \<le> length frames" and "frames \<noteq> [] \<longrightarrow> total_frames \<noteq> 0"
    and "converted frames (pending ws) st"
  shows "\<exists>ws' st'. pool_step frames total_frames k (ws, st) = Inr (ws', st')
           \<and> (\<forall>w \<in> set ws'. fst (snd w) \<le> length frames) \<and> converted frames (pending ws') st'"
proof (cases "k < length ws \<and> fst (ws ! k) < fst (snd (ws ! k))")
  case True
  then have k: "k < length ws" by simp
  obtain i end_idx pl where w: "ws ! k = (i, end_idx, pl)" by (cases "ws ! k")
  from True w have lt: "i < end_idx" by simp
  from k assms(1) w have e: "end_idx \<le> length frames" by (metis fst_conv nth_mem snd_conv)
  from lt e assms(2) have total: "total_frames \<noteq> 0" by auto
  from worker_step_converted [OF lt e total assms(3), of pl]
  obtain w' st' where step: "worker_step frames total_frames (ws ! k) st = Inr (w', st')"
    and e': "fst (snd w') = end_idx"
    and c: "converted frames (pending ws - (pend (ws ! k) - pend w')) st'"
    unfolding w by blast
  have "converted frames (pending (ws[k := w'])) st'"
    using c pending_update [OF k] by (rule converted_mono)
  moreover have "\<forall>w \<in> set (ws[k := w']). fst (snd w) \<le> length frames"
  proof
    fix v assume "v \<in> set (ws[k := w'])"
    then have "v = w' \<or> v \<in> set ws"
      using set_update_subset_insert [of ws k w'] by auto
    with assms(1) e e' show "fst (snd v) \<le> length frames" by auto
  qed
  ultimately show ?thesis using True step by simp
next
  case False
  with assms show ?thesis by auto
qed

lemma run_schedule_converted:
  assumes "\<forall>w \<in> set ws. fst (snd w) \<le> length frames" and "frames \<noteq> [] \<longrightarrow> total_frames \<noteq> 0"
    and "converted frames (pending ws) st"
  shows "\<exists>ws' st'. run_schedule frames total_frames sched (ws, st) = Inr (ws', st')
           \<and> (\<forall>w \<in> set ws'. fst (snd w) \<le> length frames) \<and> converted frames (pending ws') st'"
  using assms
proof (induction sched arbitrary: ws st)
  case Nil
  then show ?case by simp
next
  case (Cons k sched)
  from pool_step_converted [OF Cons.prems, of k]
  obtain ws1 st1 where 1: "pool_step frames total_frames k (ws, st) = Inr (ws1, st1)"
    and 2: "\<forall>w \<in> set ws1. fst (snd w) \<le> length frames"
    and 3: "converted frames (pending ws1) st1" by blast
  from Cons.IH [OF 2 Cons.prems(2) 3] 1 show ?case by simp
qed

lemma join_all_converted:
  assumes "\<forall>w \<in> set ws. fst (snd w) \<le> length frames" and "frames \<noteq> [] \<longrightarrow> total_frames \<noteq> 0"
    and "converted frames P st"
  shows "\<exists>st'. join_all frames total_frames ws st = Inr st' \<and> converted frames (P - pending ws) st'"
  using assms
proof (induction ws arbitrary: P st)
  case Nil
  then show ?case by (simp add: pending_def)
next
  case (Cons w ws)
  from Cons.prems(1) have e: "fst (snd w) \<le> length frames" by simp
  from run_worker_converted [OF e Cons.prems(2,3)]
  obtain st1 where 1: "run_worker frames total_frames w st = Inr st1"
    and 2: "converted frames (P - pend w) st1" by blast
  from Cons.prems(1) have "\<forall>w \<in> set ws. fst (snd w) \<le> length frames" by simp
  from Cons.IH [OF this Cons.prems(2) 2]
  obtain st' where "join_all frames total_frames ws st1 = Inr st'"
    and "converted frames (P - pend w - pending ws) st'" by blast
  moreover have "P - pend w - pending ws = P - pending (w # ws)"
    by (auto simp: pending_def)
  ultimately show ?case using 1 by simp
qed

lemma futures_eq:
  "0 < W \<Longrightarrow> futures W N = Inr (map (chunk W (N div W) N) [0..<W])"
  by (simp add: futures_def)

lemma chunk_bound: "(W - 1) * (N div W) \<le> N" for W N :: nat
proof -
  have "(W - 1) * (N div W) \<le> W * (N div W)"
    by (rule mult_le_mono1) simp
  also have "\<dots> \<le> N" by simp
  finally show ?thesis .
qed

lemma chunk_end_le:
  assumes "i < W"
  shows "fst (chunk W (N div W) N i) \<le> snd (chunk W (N div W) N i) \<and> snd (chunk W (N div W) N i) \<le> N"
proof (cases "i = W - 1")
  case True
  then show ?thesis
    using chunk_bound [of W N] by (simp add: chunk_def)
next
  case False
  with assms have "i + 1 \<le> W - 1" by simp
  then have "(i + 1) * (N div W) \<le> (W - 1) * (N div W)"
    by (rule mult_le_mono1)
  with chunk_bound [of W N] have "(i + 1) * (N div W) \<le> N" by simp
  with False show ?thesis by (simp add: chunk_def)
qed

lemma chunks_cover:
  assumes "0 < W" and "j < N"
  shows "\<exists>i < W. fst (chunk W (N div W) N i) \<le> j \<and> j < snd (chunk W (N div W) N i)"
proof (cases "j < (W - 1) * (N div W)")
  case True
  then have c: "0 < N div W" by (cases "N div W = 0") simp_all
  let ?i = "j div (N div W)"
  from True c have i: "?i < W - 1"
    by (simp add: div_less_iff_less_mult mult.commute)
  have "?i * (N div W) \<le> j" by simp
  moreover have "j < (?i + 1) * (N div W)"
    using c by (metis Suc_eq_plus1 dividend_less_div_times mult.commute mult_Suc)
  ultimately show ?thesis
    using i by (intro exI [of _ ?i]) (simp add: chunk_def)
next
  case False
  with assms show ?thesis
    by (intro exI [of _ "W - 1"]) (simp add: chunk_def)
qed

lemma pending_futures:
  assumes "0 < W"
  shows "{0..<N} \<subseteq> pending (map start_worker (map (chunk W (N div W) N) [0..<W]))"
proof
  fix j assume "j \<in> {0..<N}"
  then have "j < N" by simp
  from chunks_cover [OF assms this]
  show "j \<in> pending (map start_worker (map (chunk W (N div W) N) [0..<W]))"
    by (auto simp: pending_def start_worker_def)
qed

lemma converted_initial: "{0..<length frames} \<subseteq> P \<Longrightarrow> converted frames P (initial_shared (length frames))"
  by (auto simp: converted_def initial_shared_def)

lemma convert_batch_converted:
  assumes "0 < num_threads" and "frames \<noteq> [] \<longrightarrow> total_frames \<noteq> 0"
  shows "\<exists>st. convert_batch num_threads total_frames frames sched = Inr st \<and> converted frames {} st"
proof -
  let ?ws = "map start_worker
    (map (chunk num_threads (length frames div num_threads) (length frames)) [0..<num_threads])"
  have ends: "\<forall>w \<in> set ?ws. fst (snd w) \<le> length frames"
    using chunk_end_le [of _ num_threads "length frames"] by (auto simp: start_worker_def)
  have "converted frames (pending ?ws) (initial_shared (length frames))"
    using pending_futures [OF assms(1)] by (rule converted_initial)
  from run_schedule_converted [OF ends assms(2) this, of sched]
  obtain ws' st1 where 1: "run_schedule frames total_frames sched (?ws, initial_shared (length frames)) = Inr (ws', st1)"
    and 2: "\<forall>w \<in> set ws'. fst (snd w) \<le> length frames"
    and 3: "converted frames (pending ws') st1" by blast
  from join_all_converted [OF 2 assms(2) 3]
  obtain st where "join_all frames total_frames ws' st1 = Inr st" and "converted frames {} st"
    by auto
  with 1 assms(1) show ?thesis
    by (simp add: convert_batch_def futures_eq)
qed

text \<open>
  Claim C1. With at least one worker (and a frame count \<^verbatim>\<open>total_frames\<close> other than
  zero when there are frames), the batch conversion ends without a fault under every
  schedule of the workers, also with fewer frames than workers; the output vector has
  the length of the batch and its \<open>i\<close>-th element is the conversion of the \<open>i\<close>-th frame.
\<close>

theorem convert_batch_in_order:
  assumes "0 < num_threads" and "frames \<noteq> [] \<longrightarrow> total_frames \<noteq> 0"
  shows "\<exists>st. convert_batch num_threads total_frames frames sched = Inr st
           \<and> length (ascii_frames st) = length frames
           \<and> (\<forall>i < length frames. convert_frame_to_ascii (frames ! i) = Inr (ascii_frames st ! i))"
  using convert_batch_converted [OF assms, of sched] by (auto simp: converted_def)

theorem convert_batch_in_order_witness:
  "(0::nat) < 3 \<and> (2::int) \<noteq> 0
   \<and> (\<exists>st. convert_batch 3 2 [black_frame 1 1, black_frame 0 0] [2, 0, 2, 1] = Inr st
         \<and> length (ascii_frames st) = 2 \<and> (0::nat) < 2
         \<and> convert_frame_to_ascii (black_frame 1 1) = Inr (ascii_frames st ! 0))"
  using convert_batch_in_order [of 3 "[black_frame 1 1, black_frame 0 0]" 2 "[2, 0, 2, 1]"]
  by fastforce

lemma concat_even_chunks:
  "concat (map (\<lambda>i. [i * c..<(i + 1) * c]) [0..<k]) = [0..<k * c]"
proof (induction k)
  case 0
  then show ?case by simp
next
  case (Suc k)
  have "[0..<k * c + c] = [0..<k * c] @ [k * c..<k * c + c]"
    by (rule upt_add_eq_append) simp
  with Suc show ?case by (simp add: add.commute)
qed

lemma concat_chunks:
  assumes "0 < W"
  shows "concat (map (\<lambda>w. [fst w..<snd w]) (map (chunk W (N div W) N) [0..<W])) = [0..<N]"
proof -
  let ?c = "N div W"
  from assms have "[0..<W] = [0..<W - 1] @ [W - 1]"
    by (cases W) simp_all
  then have "concat (map (\<lambda>w. [fst w..<snd w]) (map (chunk W ?c N) [0..<W]))
      = concat (map (\<lambda>i. [fst (chunk W ?c N i)..<snd (chunk W ?c N i)]) [0..<W - 1])
        @ [fst (chunk W ?c N (W - 1))..<snd (chunk W ?c N (W - 1))]"
    by (simp add: comp_def)
  moreover have "map (\<lambda>i. [fst (chunk W ?c N i)..<snd (chunk W ?c N i)]) [0..<W - 1]
      = map (\<lambda>i. [i * ?c..<(i + 1) * ?c]) [0..<W - 1]"
    by (intro map_cong) (simp_all add: chunk_def)
  moreover have "chunk W ?c N (W - 1) = ((W - 1) * ?c, N)"
    by (simp add: chunk_def)
  ultimately have "concat (map (\<lambda>w. [fst w..<snd w]) (map (chunk W ?c N) [0..<W]))
      = concat (map (\<lambda>i. [i * ?c..<(i + 1) * ?c]) [0..<W - 1]) @ [(W - 1) * ?c..<N]"
    by (simp only: fst_conv snd_conv)
  also have "\<dots> = [0..<(W - 1) * ?c] @ [(W - 1) * ?c..<N]"
    by (simp only: concat_even_chunks)
  also have "\<dots> = [0..<N]"
    using chunk_bound [of W N] upt_add_eq_append [of 0 "(W - 1) * ?c" "N - (W - 1) * ?c"]
    by simp
  finally show ?thesis .
qed

text \<open>
  Claim C2. With \<open>W \<ge> 1\<close> workers and \<open>N\<close> frames the spawning loop starts \<open>W\<close> workers;
  with \<open>chunk_size = N div W\<close>, worker \<open>i\<close> for \<open>i < W - 1\<close> gets the range from
  \<open>i * chunk_size\<close> to \<open>i * chunk_size + chunk_size\<close> (exclusive) and the last worker the
  range from \<open>(W - 1) * chunk_size\<close> to \<open>N\<close>. The ranges, in the order of the workers,
  make up \<open>0, 1, \<dots>, N - 1\<close>: they are contiguous, they do not overlap and they leave
  nothing out. A worker runs the loop body at exactly the indices of its range, in
  increasing order. For \<open>N = 5\<close> and \<open>W = 3\<close> the ranges are \<open>[0, 1)\<close>, \<open>[1, 2)\<close> and
  \<open>[2, 5)\<close>, the last being the indices 2, 3, 4.
\<close>

theorem futures_partition:
  assumes "1 \<le> W"
  shows "\<exists>ts. futures W N = Inr ts \<and> length ts = W
     \<and> (\<forall>i. i + 1 < W \<longrightarrow>
           ts ! i = (i * (N div W), i * (N div W) + N div W)
         \<and> length [fst (ts ! i)..<snd (ts ! i)] = N div W)
     \<and> ts ! (W - 1) = ((W - 1) * (N div W), N)
     \<and> (W - 1) * (N div W) \<le> N
     \<and> length [fst (ts ! (W - 1))..<snd (ts ! (W - 1))] = N - (W - 1) * (N div W)
     \<and> concat (map (\<lambda>w. [fst w..<snd w]) ts) = [0..<N]
     \<and> (\<forall>start end_idx frames total_frames st.
           process_frames start end_idx frames total_frames st =
             visit [start..<end_idx] frames total_frames st)
     \<and> futures 3 5 = Inr [(0, 1), (1, 2), (2, 5)]
     \<and> [2..<5] = [2, 3, 4]"
proof -
  let ?ts = "map (chunk W (N div W) N) [0..<W]"
  from assms have W: "0 < W" by simp
  have 1: "futures W N = Inr ?ts" using W by (rule futures_eq)
  have 2: "length ?ts = W" by simp
  have 3: "?ts ! i = (i * (N div W), i * (N div W) + N div W)
         \<and> length [fst (?ts ! i)..<snd (?ts ! i)] = N div W" if "i + 1 < W" for i
  proof -
    from that have "i \<noteq> W - 1" and "i < W" by simp_all
    then show ?thesis by (simp add: chunk_def)
  qed
  have 4: "?ts ! (W - 1) = ((W - 1) * (N div W), N)"
    using W by (simp add: chunk_def)
  have 5: "length [fst (?ts ! (W - 1))..<snd (?ts ! (W - 1))] = N - (W - 1) * (N div W)"
    using W by (simp add: chunk_def)
  have 6: "futures 3 5 = Inr [(0, 1), (1, 2), (2, 5)]"
    by code_simp
  have 7: "[2..<5] = [2::nat, 3, 4]"
    by code_simp
  have 8: "concat (map (\<lambda>w. [fst w..<snd w]) ?ts) = [0..<N]"
    using W by (rule concat_chunks)
  from 1 2 3 4 5 6 7 8 chunk_bound [of W N] process_frames_visit show ?thesis
    by blast
qed

theorem futures_partition_witness:
  "(1::nat) \<le> 3 \<and> futures 3 7 = Inr [(0, 2), (2, 4), (4, 7)]"
proof -
  have "futures 3 7 = Inr [(0, 2), (2, 4), (4, 7)]" by code_simp
  with futures_partition [of 3 7] show ?thesis by simp
qed

text \<open>
  Claim C7 fails on the code. With a worker count of zero, the value that
  \<^verbatim>\<open>hardware_concurrency()\<close> returns when it cannot tell, the first computation is
  \<^verbatim>\<open>frames.size() / num_threads\<close>: a division by zero, for every batch. Nothing is
  clamped and no worker is started.
\<close>

theorem convert_batch_zero_workers:
  "futures 0 n = Inl DivideByZero \<and> convert_batch 0 total_frames frames sched = Inl DivideByZero"
  by (simp add: futures_def convert_batch_def)

text \<open>
  Claim C8, as amended. With \<open>W > 0\<close> workers an empty batch is converted to the empty
  sequence, but the \<open>W\<close> workers are started all the same, each with the empty range
  \<open>[0, 0)\<close>. With fewer frames than workers the first \<open>W - 1\<close> workers get \<open>[0, 0)\<close> and the
  last one gets \<open>[0, N)\<close>. For every \<open>N\<close> each worker's range \<open>[start, end)\<close> has
  \<open>start \<le> end \<le> N\<close>: no range leaves the batch.
\<close>

theorem futures_degenerate:
  assumes "0 < W"
  shows "futures W 0 = Inr (replicate W (0, 0))
     \<and> (\<exists>st. convert_batch W total_frames [] sched = Inr st \<and> ascii_frames st = [])
     \<and> (N < W \<longrightarrow> futures W N = Inr (replicate (W - 1) (0, 0) @ [(0, N)]))
     \<and> (\<exists>ts. futures W N = Inr ts \<and> length ts = W
           \<and> (\<forall>w \<in> set ts. fst w \<le> snd w \<and> snd w \<le> N))"
proof -
  have small: "map (chunk W (M div W) M) [0..<W] = replicate (W - 1) (0, 0) @ [(0, M)]"
    if "M < W" for M
  proof -
    from assms have "[0..<W] = [0..<W - 1] @ [W - 1]"
      by (cases W) simp_all
    then have "map (chunk W (M div W) M) [0..<W]
        = map (chunk W (M div W) M) [0..<W - 1] @ [chunk W (M div W) M (W - 1)]"
      by simp
    moreover have "map (chunk W (M div W) M) [0..<W - 1] = map (\<lambda>i. (0, 0)) [0..<W - 1]"
      using that by (intro map_cong) (simp_all add: chunk_def)
    moreover have "chunk W (M div W) M (W - 1) = (0, M)"
      using that by (simp add: chunk_def)
    ultimately show ?thesis by (simp add: map_replicate_const)
  qed
  have "replicate (W - 1) (0::nat, 0::nat) @ [(0, 0)] = replicate W (0, 0)"
    using assms by (cases W) (simp_all add: replicate_append_same)
  with small [of 0] assms have 1: "futures W 0 = Inr (replicate W (0, 0))"
    by (simp add: futures_eq)
  have "[] \<noteq> [] \<longrightarrow> total_frames \<noteq> 0" by simp
  from convert_batch_converted [OF assms this, of sched]
  have 2: "\<exists>st. convert_batch W total_frames [] sched = Inr st \<and> ascii_frames st = []"
    by (auto simp: converted_def)
  have 3: "N < W \<longrightarrow> futures W N = Inr (replicate (W - 1) (0, 0) @ [(0, N)])"
    using small [of N] assms by (simp add: futures_eq)
  have "\<forall>w \<in> set (map (chunk W (N div W) N) [0..<W]). fst w \<le> snd w \<and> snd w \<le> N"
    using chunk_end_le [of _ W N] by auto
  then have 4: "\<exists>ts. futures W N = Inr ts \<and> length ts = W
           \<and> (\<forall>w \<in> set ts. fst w \<le> snd w \<and> snd w \<le> N)"
    using assms by (simp add: futures_eq)
  from 1 2 3 4 show ?thesis by blast
qed

theorem futures_degenerate_witness:
  "(0::nat) < 3 \<and> (2::nat) < 3 \<and> futures 3 2 = Inr [(0, 0), (0, 0), (0, 2)]
   \<and> (\<exists>st. convert_batch 3 0 [] [1, 0] = Inr st \<and> ascii_frames st = [])"
  using futures_degenerate [of 3 0 "[1, 0]" 2] by (simp add: numeral_3_eq_3)

text \<open>Claim C8 as stated fails: for an empty batch three workers are started when the
  worker count is three.\<close>

theorem futures_empty_batch_counterexample:
  "futures 3 0 = Inr [(0, 0), (0, 0), (0, 0)]"
  by code_simp


subsection \<open>Reports of a batch\<close>









text \<open>What the source does on 20 frames with one worker, and for 53 of 100 frames: the
  \<^verbatim>\<open>float\<close> difference of the fractions of 4 and 3 of 20 is below \<^verbatim>\<open>0.05f\<close>, so the
  fourth frame writes no bar, and 15 bars are written in all; the percentage of 53 of
  100 is truncated from 52.99999\<dots>.\<close>

lemma display_progress_twenty_frames:
  "fl32 (progress_fraction 4 20 - progress_fraction 3 20) < fl32 (5 / 100)
   \<and> map_sum id (\<lambda>st. map (\<lambda>p. static_cast_int (fl32 (p * 100))) (shown st))
        (convert_batch 1 20 (replicate 20 (black_frame 0 0)) [])
      = Inr [5, 10, 15, 25, 30, 40, 50, 55, 60, 70, 75, 80, 85, 95, 100]"
  by code_simp

lemma render_bar_truncates:
  "render_bar (progress_fraction 53 100) =
     ''['' @ replicate 26 CHR ''='' @ ''>'' @ replicate 23 CHR '' '' @ ''] 52 %'' @ [CHR 0x0D]"
  by code_simp

text \<open>
  With two workers the calls of \<^verbatim>\<open>display_progress\<close> overlap. Three frames, worker 0 with
  the range \<open>[0, 1)\<close> and worker 1 with \<open>[1, 3)\<close>: worker 1 converts frame 1 and writes the
  bar for 1 of 3; worker 0 converts frame 0, passes the test with 2 of 3 and assigns
  \<^verbatim>\<open>last_progress\<close>, but has not yet taken the mutex; worker 1 converts frame 2, passes
  the test with 3 of 3 and writes its bar; then worker 0 writes its bar. The bars show
  33 %, 100 % and 66 %, in this order.
\<close>

lemma display_progress_overlap:
  "futures 2 3 = Inr [(0, 1), (1, 3)]
   \<and> map_sum id shown
        (convert_batch 2 3 (replicate 3 (black_frame 0 0))
           [1, 1, 1, 1, 1, 1, 0, 0, 0, 0, 0, 1, 1, 1, 1, 1, 1])
      = Inr [progress_fraction 1 3, progress_fraction 3 3, progress_fraction 2 3]
   \<and> map (\<lambda>p. static_cast_int (fl32 (p * 100)))
        [progress_fraction 1 3, progress_fraction 3 3, progress_fraction 2 3] = [33, 100, 66]
   \<and> \<not> rising [progress_fraction 1 3, progress_fraction 3 3, progress_fraction 2 3]"
  by code_simp




end
